theory Spec2Isabelle
  imports Complex_Main "HOL-Library.Log_Nat"
begin

section \<open>Floating-point values\<close>

text \<open>
  The notebook computes with numpy arrays of binary64 numbers.  A number is modelled as a
  real or one of the three special values, and every arithmetic operation takes the
  format \<open>R\<close>: the map that sends the exact result of an operation on finite operands
  into the format.  Three formats are defined.  \<open>exact\<close> keeps every real (arithmetic without
  rounding, overflow or underflow).  \<open>float64\<close> is binary64 as numpy computes with it: the
  result is rounded to the nearest number with a significand of 53 bits, ties to the even
  significand, with the subnormal numbers below \<open>2^-1022\<close>, and a rounded magnitude of
  \<open>2^1024\<close> or more is an infinity.  \<open>binary64\<close> keeps the range of binary64 only: it sends
  a result at or beyond \<open>2^1024\<close> to an infinity and one below half the smallest subnormal
  (\<open>2^-1075\<close>) to zero, and does not round inside the range.  In every format \<open>np.exp\<close> and
  \<open>np.log\<close> return the exact value sent into the format.  The sign of zero is not
  modelled.  The special values follow IEEE 754 as numpy applies it: a division by zero or a
  logarithm of zero gives an infinity, an undefined operation gives NaN, and no exception is
  raised.
\<close>

datatype npfloat = Fin real | PInf | NInf | NaN

type_synonym fmt = "real \<Rightarrow> npfloat"

definition exact :: fmt where
  "exact r = Fin r"

definition binary64 :: fmt where
  "binary64 r =
     (if 2 ^ 1024 \<le> r then PInf
      else if r \<le> - (2 ^ 1024) then NInf
      else if \<bar>r\<bar> < 1 / 2 ^ 1075 then Fin 0
      else Fin r)"

text \<open>
  Rounding to the nearest integer, ties to even; the exponent of the binade of a non-zero
  real, not below \<open>-1022\<close>; the nearest multiple of the unit in the last place of that
  binade; and the format \<open>float64\<close>.
\<close>

definition rne :: "real \<Rightarrow> int" where
  "rne y = (let f = \<lfloor>y\<rfloor>; d = y - of_int f in
            if d < 1 / 2 then f else if 1 / 2 < d then f + 1 else if even f then f else f + 1)"

definition expo :: "real \<Rightarrow> int" where
  "expo x = max (- 1022) (if 1 \<le> \<bar>x\<bar> then bitlen \<lfloor>\<bar>x\<bar>\<rfloor> - 1 else - bitlen (\<lceil>1 / \<bar>x\<bar>\<rceil> - 1))"

definition rnd53 :: "real \<Rightarrow> real" where
  "rnd53 x = (let u = power_int 2 (expo x - 52) in of_int (rne (x / u)) * u)"

definition float64 :: fmt where
  "float64 x =
     (if x = 0 then Fin 0
      else if 2 ^ 1024 \<le> \<bar>rnd53 x\<bar> then (if 0 < x then PInf else NInf)
      else Fin (rnd53 x))"

fun isfinite :: "npfloat \<Rightarrow> bool" where
  "isfinite (Fin x) = True"
| "isfinite PInf = False"
| "isfinite NInf = False"
| "isfinite NaN = False"

fun fneg :: "npfloat \<Rightarrow> npfloat" where
  "fneg (Fin x) = Fin (- x)"
| "fneg PInf = NInf"
| "fneg NInf = PInf"
| "fneg NaN = NaN"

fun fabs :: "npfloat \<Rightarrow> npfloat" where
  "fabs (Fin x) = Fin \<bar>x\<bar>"
| "fabs PInf = PInf"
| "fabs NInf = PInf"
| "fabs NaN = NaN"

fun fadd :: "fmt \<Rightarrow> npfloat \<Rightarrow> npfloat \<Rightarrow> npfloat" where
  "fadd R (Fin x) (Fin y) = R (x + y)"
| "fadd R NaN y = NaN"
| "fadd R x NaN = NaN"
| "fadd R PInf NInf = NaN"
| "fadd R NInf PInf = NaN"
| "fadd R PInf y = PInf"
| "fadd R x PInf = PInf"
| "fadd R NInf y = NInf"
| "fadd R x NInf = NInf"

definition fsub :: "fmt \<Rightarrow> npfloat \<Rightarrow> npfloat \<Rightarrow> npfloat" where
  "fsub R x y = fadd R x (fneg y)"

text \<open>The sign of a value that is not NaN: 1, 0 or -1.\<close>

fun fsign :: "npfloat \<Rightarrow> real" where
  "fsign (Fin x) = sgn x"
| "fsign PInf = 1"
| "fsign NInf = - 1"
| "fsign NaN = 0"

fun fmul :: "fmt \<Rightarrow> npfloat \<Rightarrow> npfloat \<Rightarrow> npfloat" where
  "fmul R (Fin x) (Fin y) = R (x * y)"
| "fmul R NaN y = NaN"
| "fmul R x NaN = NaN"
| "fmul R x y =
     (if fsign x * fsign y = 0 then NaN
      else if 0 < fsign x * fsign y then PInf else NInf)"

fun fdiv :: "fmt \<Rightarrow> npfloat \<Rightarrow> npfloat \<Rightarrow> npfloat" where
  "fdiv R (Fin x) (Fin y) =
     (if y = 0 then (if x = 0 then NaN else if 0 < x then PInf else NInf)
      else R (x / y))"
| "fdiv R NaN y = NaN"
| "fdiv R x NaN = NaN"
| "fdiv R (Fin x) y = Fin 0"
| "fdiv R x (Fin y) = (if 0 < fsign x * (if y < 0 then - 1 else 1) then PInf else NInf)"
| "fdiv R x y = NaN"

fun fexp :: "fmt \<Rightarrow> npfloat \<Rightarrow> npfloat" where
  "fexp R (Fin x) = R (exp x)"
| "fexp R PInf = PInf"
| "fexp R NInf = Fin 0"
| "fexp R NaN = NaN"

fun flog :: "fmt \<Rightarrow> npfloat \<Rightarrow> npfloat" where
  "flog R (Fin x) = (if 0 < x then R (ln x) else if x = 0 then NInf else NaN)"
| "flog R PInf = PInf"
| "flog R NInf = NaN"
| "flog R NaN = NaN"

text \<open>\<open>x > y\<close> on floats: false as soon as one side is NaN.\<close>

fun fgt :: "npfloat \<Rightarrow> npfloat \<Rightarrow> bool" where
  "fgt (Fin x) (Fin y) = (y < x)"
| "fgt NaN y = False"
| "fgt x NaN = False"
| "fgt PInf PInf = False"
| "fgt PInf y = True"
| "fgt x PInf = False"
| "fgt NInf y = False"
| "fgt x NInf = True"

text \<open>\<open>x >= c\<close> and \<open>x <= c\<close> for a float \<open>x\<close> and a real \<open>c\<close>: false on NaN.\<close>

fun fge :: "npfloat \<Rightarrow> real \<Rightarrow> bool" where
  "fge (Fin y) c = (c \<le> y)"
| "fge PInf c = True"
| "fge NInf c = False"
| "fge NaN c = False"

fun fle :: "npfloat \<Rightarrow> real \<Rightarrow> bool" where
  "fle (Fin y) c = (y \<le> c)"
| "fle NInf c = True"
| "fle PInf c = False"
| "fle NaN c = False"

text \<open>The maximum of two values as \<open>np.max\<close> takes it: NaN wins.\<close>

definition fmax :: "npfloat \<Rightarrow> npfloat \<Rightarrow> npfloat" where
  "fmax x y = (if x = NaN \<or> y = NaN then NaN else if fgt y x then y else x)"

text \<open>\<open>np.sum\<close> of a sequence of values, added from the left.\<close>

definition fsum :: "fmt \<Rightarrow> npfloat list \<Rightarrow> npfloat" where
  "fsum R xs = foldl (fadd R) (Fin 0) xs"

section \<open>Arrays\<close>

text \<open>
  A one-dimensional array is the list of its entries.  A two-dimensional array is its
  number of columns and the list of its rows (the number of columns is kept apart, as a
  numpy array of shape \<open>(0, c)\<close> has it).  \<open>vec\<close> and \<open>tab\<close> build an array from its
  length or shape and its entries.
\<close>

datatype arr2 = Arr2 (ncols: nat) (rows: "npfloat list list")

definition nrows :: "arr2 \<Rightarrow> nat" where
  "nrows X = length (rows X)"

definition el :: "arr2 \<Rightarrow> nat \<Rightarrow> nat \<Rightarrow> npfloat" where
  "el X i j = rows X ! i ! j"

definition vec :: "nat \<Rightarrow> (nat \<Rightarrow> 'a) \<Rightarrow> 'a list" where
  "vec n f = map f [0..<n]"

definition tab :: "nat \<Rightarrow> nat \<Rightarrow> (nat \<Rightarrow> nat \<Rightarrow> npfloat) \<Rightarrow> arr2" where
  "tab r c f = Arr2 c (vec r (\<lambda>i. vec c (\<lambda>j. f i j)))"

text \<open>A well-formed array: every row has \<open>ncols\<close> entries.\<close>

definition wf_arr :: "arr2 \<Rightarrow> bool" where
  "wf_arr X = list_all (\<lambda>r. length r = ncols X) (rows X)"

text \<open>The exceptions the cells can raise.\<close>

datatype pyerror = ValueError | NameError

definition bnd :: "pyerror + 'a \<Rightarrow> ('a \<Rightarrow> pyerror + 'b) \<Rightarrow> pyerror + 'b" where
  "bnd m f = (case m of Inl e \<Rightarrow> Inl e | Inr x \<Rightarrow> f x)"

text \<open>
  Broadcasting of one axis: two lengths fit when they are equal or one of them is 1;
  an axis of length 1 is read at index 0 throughout.
\<close>

definition bdim :: "nat \<Rightarrow> nat \<Rightarrow> nat option" where
  "bdim a b = (if a = b then Some a else if a = 1 then Some b else if b = 1 then Some a else None)"

definition bidx :: "nat \<Rightarrow> nat \<Rightarrow> nat" where
  "bidx n i = (if n = 1 then 0 else i)"

text \<open>An elementwise binary operation on two one-dimensional arrays.\<close>

definition bc11 ::
  "(npfloat \<Rightarrow> npfloat \<Rightarrow> npfloat) \<Rightarrow> npfloat list \<Rightarrow> npfloat list \<Rightarrow> pyerror + npfloat list" where
  "bc11 f xs ys =
     (case bdim (length xs) (length ys) of
        None \<Rightarrow> Inl ValueError
      | Some n \<Rightarrow> Inr (vec n (\<lambda>i. f (xs ! bidx (length xs) i) (ys ! bidx (length ys) i))))"

text \<open>An elementwise binary operation on two two-dimensional arrays.\<close>

definition bc22 ::
  "(npfloat \<Rightarrow> npfloat \<Rightarrow> npfloat) \<Rightarrow> arr2 \<Rightarrow> arr2 \<Rightarrow> pyerror + arr2" where
  "bc22 f X Y =
     (case bdim (nrows X) (nrows Y) of
        None \<Rightarrow> Inl ValueError
      | Some r \<Rightarrow>
         (case bdim (ncols X) (ncols Y) of
            None \<Rightarrow> Inl ValueError
          | Some c \<Rightarrow>
              Inr (tab r c (\<lambda>i j. f (el X (bidx (nrows X) i) (bidx (ncols X) j))
                                     (el Y (bidx (nrows Y) i) (bidx (ncols Y) j))))))"

text \<open>Against a two-dimensional array, a one-dimensional array of length \<open>n\<close> has shape \<open>(1, n)\<close>.\<close>

definition as_row :: "npfloat list \<Rightarrow> arr2" where
  "as_row xs = tab 1 (length xs) (\<lambda>i j. xs ! j)"

definition bc21 ::
  "(npfloat \<Rightarrow> npfloat \<Rightarrow> npfloat) \<Rightarrow> arr2 \<Rightarrow> npfloat list \<Rightarrow> pyerror + arr2" where
  "bc21 f X ys = bc22 f X (as_row ys)"

definition bc12 ::
  "(npfloat \<Rightarrow> npfloat \<Rightarrow> npfloat) \<Rightarrow> npfloat list \<Rightarrow> arr2 \<Rightarrow> pyerror + arr2" where
  "bc12 f xs Y = bc22 f (as_row xs) Y"

text \<open>A function applied to every entry (an operation with a scalar, \<open>np.exp\<close>, \<open>np.log\<close>, \<open>abs\<close>).\<close>

definition map2d :: "(npfloat \<Rightarrow> npfloat) \<Rightarrow> arr2 \<Rightarrow> arr2" where
  "map2d g X = Arr2 (ncols X) (map (map g) (rows X))"

text \<open>\<open>X @ Y\<close>.\<close>

definition matmul :: "fmt \<Rightarrow> arr2 \<Rightarrow> arr2 \<Rightarrow> pyerror + arr2" where
  "matmul R X Y =
     (if ncols X \<noteq> nrows Y then Inl ValueError
      else Inr (tab (nrows X) (ncols Y)
                  (\<lambda>i j. fsum R (vec (ncols X) (\<lambda>k. fmul R (el X i k) (el Y k j))))))"

text \<open>\<open>X.T\<close>.\<close>

definition np_T :: "arr2 \<Rightarrow> arr2" where
  "np_T X = tab (ncols X) (nrows X) (\<lambda>i j. el X j i)"

text \<open>\<open>two_d(X) = np.reshape(X, (X.size, 1))\<close>, for a one-dimensional \<open>X\<close>.\<close>

definition two_d :: "npfloat list \<Rightarrow> arr2" where
  "two_d xs = tab (length xs) 1 (\<lambda>i j. xs ! i)"

text \<open>\<open>X.flatten()\<close> (row-major) and \<open>X.flatten(order='F')\<close> (column-major).\<close>

definition flatten :: "arr2 \<Rightarrow> npfloat list" where
  "flatten X = vec (nrows X * ncols X) (\<lambda>k. el X (k div ncols X) (k mod ncols X))"

definition flatten_F :: "arr2 \<Rightarrow> npfloat list" where
  "flatten_F X = vec (nrows X * ncols X) (\<lambda>k. el X (k mod nrows X) (k div nrows X))"

text \<open>\<open>np.repeat(X, k, axis = 1)\<close>: every column \<open>k\<close> times in a row.\<close>

definition repeat_axis1 :: "nat \<Rightarrow> arr2 \<Rightarrow> arr2" where
  "repeat_axis1 k X = tab (nrows X) (k * ncols X) (\<lambda>i j. el X i (j div k))"

text \<open>\<open>np.sum(X)\<close>, \<open>np.sum(X, axis=1)\<close> and \<open>np.sum(X, axis=0)\<close>.\<close>

definition np_sum :: "fmt \<Rightarrow> arr2 \<Rightarrow> npfloat" where
  "np_sum R X = fsum R (flatten X)"

definition sum_axis1 :: "fmt \<Rightarrow> arr2 \<Rightarrow> npfloat list" where
  "sum_axis1 R X = vec (nrows X) (\<lambda>i. fsum R (vec (ncols X) (\<lambda>j. el X i j)))"

definition sum_axis0 :: "fmt \<Rightarrow> arr2 \<Rightarrow> npfloat list" where
  "sum_axis0 R X = vec (ncols X) (\<lambda>j. fsum R (vec (nrows X) (\<lambda>i. el X i j)))"

text \<open>\<open>np.max\<close> of a whole array raises on an array without entries.\<close>

fun max1 :: "npfloat list \<Rightarrow> pyerror + npfloat" where
  "max1 [] = Inl ValueError"
| "max1 (x # xs) = Inr (foldl fmax x xs)"

definition np_max :: "arr2 \<Rightarrow> pyerror + npfloat" where
  "np_max X = max1 (flatten X)"

text \<open>\<open>np.max(X, axis=0)\<close>: the maximum of every column; it raises when there is no row.\<close>

definition max_axis0 :: "arr2 \<Rightarrow> pyerror + npfloat list" where
  "max_axis0 X =
     (if nrows X = 0 then Inl ValueError
      else Inr (vec (ncols X)
                  (\<lambda>j. foldl fmax (el X 0 j) (vec (nrows X - 1) (\<lambda>i. el X (Suc i) j)))))"

section \<open>The three cells\<close>

datatype status = Converged | MaxIterationsExceeded

text \<open>
  What a cell leaves behind: the branch its final \<open>if ite >= maxite\<close> takes, the number of
  iterations, the potentials, the coupling and the value.
\<close>

record 'p result =
  res_status :: status
  res_ite :: nat
  res_u :: 'p
  res_v :: 'p
  res_pi :: arr2
  res_val :: npfloat

definition status_of :: "nat \<Rightarrow> real \<Rightarrow> status" where
  "status_of ite maxite = (if maxite \<le> real ite then MaxIterationsExceeded else Converged)"

text \<open>\<open>val = np.sum(pi * Phi) - sigma * np.sum(pi * np.log(pi))\<close>.\<close>

definition objective :: "fmt \<Rightarrow> real \<Rightarrow> arr2 \<Rightarrow> arr2 \<Rightarrow> pyerror + npfloat" where
  "objective R sigma Phi pi' =
     bnd (bc22 (fmul R) pi' Phi) (\<lambda>piPhi.
     bnd (bc22 (fmul R) pi' (map2d (flog R) pi')) (\<lambda>pilog.
     Inr (fsub R (np_sum R piPhi) (fmul R (Fin sigma) (np_sum R pilog)))))"

subsection \<open>Matrix IPFP\<close>

text \<open>\<open>np.exp(X / sigma)\<close>.\<close>

definition exp_over :: "fmt \<Rightarrow> real \<Rightarrow> arr2 \<Rightarrow> arr2" where
  "exp_over R sigma X = map2d (\<lambda>x. fexp R (fdiv R x (Fin sigma))) X"

text \<open>
  The body of the loop: \<open>A = two_d(p/(K @ B).flatten(order='F'))\<close>, \<open>KA = (A.T @ K)\<close>,
  \<open>error = np.max(abs(np.multiply(KA,B.flatten()/q)-1))\<close>, \<open>B = (q / KA).T\<close>.
  It returns the new \<open>A\<close>, \<open>error\<close> and \<open>B\<close>.
\<close>

definition ipfp1_body ::
  "fmt \<Rightarrow> arr2 \<Rightarrow> npfloat list \<Rightarrow> npfloat list \<Rightarrow> arr2 \<Rightarrow> pyerror + (arr2 \<times> npfloat \<times> arr2)" where
  "ipfp1_body R K p q B =
     bnd (matmul R K B) (\<lambda>KB.
     bnd (bc11 (fdiv R) p (flatten_F KB)) (\<lambda>a.
     bnd (matmul R (np_T (two_d a)) K) (\<lambda>KA.
     bnd (bc11 (fdiv R) (flatten B) q) (\<lambda>Bq.
     bnd (bc21 (fmul R) KA Bq) (\<lambda>M.
     bnd (np_max (map2d (\<lambda>x. fabs (fsub R x (Fin 1))) M)) (\<lambda>error.
     bnd (bc12 (fdiv R) q KA) (\<lambda>qKA.
     Inr (two_d a, error, np_T qKA))))))))"

text \<open>
  \<open>while error > tol and ite < maxite\<close>.  \<open>A\<close> is bound by the first iteration only, so
  the state holds it as an option.
\<close>

function ipfp1_loop ::
  "fmt \<Rightarrow> arr2 \<Rightarrow> npfloat list \<Rightarrow> npfloat list \<Rightarrow> real \<Rightarrow> real \<Rightarrow>
   arr2 option \<Rightarrow> arr2 \<Rightarrow> npfloat \<Rightarrow> nat \<Rightarrow> pyerror + (arr2 option \<times> arr2 \<times> npfloat \<times> nat)" where
  "ipfp1_loop R K p q tol maxite A B error ite =
     (if fgt error (Fin tol) \<and> real ite < maxite then
        (case ipfp1_body R K p q B of
           Inl e \<Rightarrow> Inl e
         | Inr (A', error', B') \<Rightarrow> ipfp1_loop R K p q tol maxite (Some A') B' error' (Suc ite))
      else Inr (A, B, error, ite))"
  by pat_completeness auto
termination
  by (relation "measure (\<lambda>(R, K, p, q, tol, maxite, A, B, error, ite). nat \<lceil>maxite\<rceil> - ite)")
     (auto simp: zless_nat_eq_int_zless less_ceiling_iff intro!: diff_less_mono2)

text \<open>
  The cell, with \<open>Phi\<close>, \<open>p\<close>, \<open>q\<close>, \<open>nbY\<close>, \<open>sigma\<close>, \<open>tol\<close> and \<open>maxite\<close> as its inputs.
  Before the loop: \<open>K = np.exp(Phi / sigma)\<close>, \<open>B = two_d(np.repeat(1, nbY))\<close> and
  \<open>error = tol + 1\<close>, an addition of the format like every other (in \<open>float64\<close> it is
  rounded, and for a large \<open>tol\<close> the sum is \<open>tol\<close> itself).
  After the loop: \<open>u = - sigma * np.log(A)\<close>, \<open>v = - sigma * np.log(B)\<close>,
  \<open>pi = (K * A) * np.repeat(B, 5, axis = 1).T\<close> and \<open>val\<close>.
\<close>

definition ipfp1 ::
  "fmt \<Rightarrow> arr2 \<Rightarrow> npfloat list \<Rightarrow> npfloat list \<Rightarrow> nat \<Rightarrow> real \<Rightarrow> real \<Rightarrow> real \<Rightarrow>
   pyerror + arr2 result" where
  "ipfp1 R Phi p q nbY sigma tol maxite =
     (let K = exp_over R sigma Phi;
          B0 = two_d (replicate nbY (Fin 1));
          error0 = fadd R (Fin tol) (Fin 1)
      in bnd (ipfp1_loop R K p q tol maxite None B0 error0 0) (\<lambda>(A, B, error, ite).
         case A of
           None \<Rightarrow> Inl NameError
         | Some A \<Rightarrow>
             bnd (bc22 (fmul R) K A) (\<lambda>KA.
             bnd (bc22 (fmul R) KA (np_T (repeat_axis1 5 B))) (\<lambda>pi'.
             bnd (objective R sigma Phi pi') (\<lambda>val.
             Inr \<lparr>res_status = status_of ite maxite, res_ite = ite,
                  res_u = map2d (\<lambda>x. fmul R (Fin (- sigma)) (flog R x)) A,
                  res_v = map2d (\<lambda>x. fmul R (Fin (- sigma)) (flog R x)) B,
                  res_pi = pi', res_val = val\<rparr>)))))"

text \<open>
  \<open>(K * A) * B.T\<close>: the coupling \<open>a_i K_ij b_j\<close> that the scaling factors of the loop imply,
  for any number of rows (the cell's own \<open>pi\<close> repeats \<open>B\<close> five times).
\<close>

definition implied_pi :: "fmt \<Rightarrow> arr2 \<Rightarrow> arr2 \<Rightarrow> arr2 \<Rightarrow> pyerror + arr2" where
  "implied_pi R K A B = bnd (bc22 (fmul R) K A) (\<lambda>KA. bc22 (fmul R) KA (np_T B))"

subsection \<open>Log-domain IPFP\<close>

text \<open>\<open>np.repeat(two_d(v), nbX, axis = 1).T\<close>.\<close>

definition rep_T :: "nat \<Rightarrow> npfloat list \<Rightarrow> arr2" where
  "rep_T nbX v = np_T (repeat_axis1 nbX (two_d v))"

text \<open>\<open>- sigma * np.log(p)\<close>.\<close>

definition neg_sigma_log :: "fmt \<Rightarrow> real \<Rightarrow> npfloat list \<Rightarrow> npfloat list" where
  "neg_sigma_log R sigma p = map (\<lambda>x. fmul R (Fin (- sigma)) (flog R x)) p"

text \<open>\<open>sigma * np.log(S)\<close> for a one-dimensional \<open>S\<close>.\<close>

definition sigma_log :: "fmt \<Rightarrow> real \<Rightarrow> npfloat list \<Rightarrow> npfloat list" where
  "sigma_log R sigma S = map (\<lambda>x. fmul R (Fin sigma) (flog R x)) S"

text \<open>
  The body of the loop:
  \<open>u = mu + sigma * np.log(np.sum(np.exp((Phi - np.repeat(two_d(v), nbX, axis = 1).T)/sigma), axis=1))\<close>,
  \<open>KA = np.sum(np.exp((Phi - two_d(u)) / sigma), axis=0)\<close>,
  \<open>error = np.max(np.abs(KA * np.exp(-v / sigma) / q - 1))\<close>,
  \<open>v = nu + sigma * np.log(KA)\<close>.
\<close>

definition log_body ::
  "fmt \<Rightarrow> arr2 \<Rightarrow> npfloat list \<Rightarrow> npfloat list \<Rightarrow> npfloat list \<Rightarrow> nat \<Rightarrow> real \<Rightarrow> npfloat list \<Rightarrow>
   pyerror + (npfloat list \<times> npfloat \<times> npfloat list)" where
  "log_body R Phi mu nu q nbX sigma v =
     bnd (bc22 (fsub R) Phi (rep_T nbX v)) (\<lambda>D.
     bnd (bc11 (fadd R) mu (sigma_log R sigma (sum_axis1 R (exp_over R sigma D)))) (\<lambda>u.
     bnd (bc22 (fsub R) Phi (two_d u)) (\<lambda>E.
     let KA = sum_axis0 R (exp_over R sigma E) in
     bnd (bc11 (fmul R) KA (map (\<lambda>x. fexp R (fdiv R (fneg x) (Fin sigma))) v)) (\<lambda>t.
     bnd (bc11 (fdiv R) t q) (\<lambda>t'.
     bnd (max1 (map (\<lambda>x. fabs (fsub R x (Fin 1))) t')) (\<lambda>error.
     bnd (bc11 (fadd R) nu (sigma_log R sigma KA)) (\<lambda>v'.
     Inr (u, error, v'))))))))"

function log_loop ::
  "fmt \<Rightarrow> arr2 \<Rightarrow> npfloat list \<Rightarrow> npfloat list \<Rightarrow> npfloat list \<Rightarrow> nat \<Rightarrow> real \<Rightarrow> real \<Rightarrow> real \<Rightarrow>
   npfloat list option \<Rightarrow> npfloat list \<Rightarrow> npfloat \<Rightarrow> nat \<Rightarrow>
   pyerror + (npfloat list option \<times> npfloat list \<times> npfloat \<times> nat)" where
  "log_loop R Phi mu nu q nbX sigma tol maxite u v error ite =
     (if fgt error (Fin tol) \<and> real ite < maxite then
        (case log_body R Phi mu nu q nbX sigma v of
           Inl e \<Rightarrow> Inl e
         | Inr (u', error', v') \<Rightarrow>
             log_loop R Phi mu nu q nbX sigma tol maxite (Some u') v' error' (Suc ite))
      else Inr (u, v, error, ite))"
  by pat_completeness auto
termination
  by (relation "measure (\<lambda>(R, Phi, mu, nu, q, nbX, sigma, tol, maxite, u, v, error, ite).
                   nat \<lceil>maxite\<rceil> - ite)")
     (auto simp: zless_nat_eq_int_zless less_ceiling_iff intro!: diff_less_mono2)

text \<open>\<open>pi = np.exp((Phi - two_d(u) - np.repeat(two_d(v), nbX, axis = 1).T) / sigma)\<close>.\<close>

definition pi_of :: "fmt \<Rightarrow> arr2 \<Rightarrow> nat \<Rightarrow> real \<Rightarrow> npfloat list \<Rightarrow> npfloat list \<Rightarrow> pyerror + arr2" where
  "pi_of R Phi nbX sigma u v =
     bnd (bc22 (fsub R) Phi (two_d u)) (\<lambda>D.
     bnd (bc22 (fsub R) D (rep_T nbX v)) (\<lambda>E.
     Inr (exp_over R sigma E)))"

text \<open>What follows the loop in both log-domain cells.\<close>

definition finish ::
  "fmt \<Rightarrow> arr2 \<Rightarrow> nat \<Rightarrow> real \<Rightarrow> real \<Rightarrow> npfloat list option \<Rightarrow> npfloat list \<Rightarrow> nat \<Rightarrow>
   pyerror + npfloat list result" where
  "finish R Phi nbX sigma maxite u v ite =
     (case u of
        None \<Rightarrow> Inl NameError
      | Some u \<Rightarrow>
          bnd (pi_of R Phi nbX sigma u v) (\<lambda>pi'.
          bnd (objective R sigma Phi pi') (\<lambda>val.
          Inr \<lparr>res_status = status_of ite maxite, res_ite = ite, res_u = u, res_v = v,
               res_pi = pi', res_val = val\<rparr>)))"

text \<open>
  The log-domain cell: \<open>v = np.repeat(0, nbY)\<close>, \<open>mu = - sigma * np.log(p)\<close>,
  \<open>nu = - sigma * np.log(q)\<close>, \<open>error = tol + 1\<close> (computed in the format), the loop, and what
  follows it.
\<close>

definition ipfp_log ::
  "fmt \<Rightarrow> arr2 \<Rightarrow> npfloat list \<Rightarrow> npfloat list \<Rightarrow> nat \<Rightarrow> nat \<Rightarrow> real \<Rightarrow> real \<Rightarrow> real \<Rightarrow>
   pyerror + npfloat list result" where
  "ipfp_log R Phi p q nbX nbY sigma tol maxite =
     (let v0 = replicate nbY (Fin 0);
          mu = neg_sigma_log R sigma p;
          nu = neg_sigma_log R sigma q;
          error0 = fadd R (Fin tol) (Fin 1)
      in bnd (log_loop R Phi mu nu q nbX sigma tol maxite None v0 error0 0) (\<lambda>(u, v, error, ite).
         finish R Phi nbX sigma maxite u v ite))"

subsection \<open>IPFP with the log-sum-exp trick\<close>

text \<open>
  The arguments of the two exponentials of an iteration:
  \<open>(Phi - np.repeat(two_d(v), nbX, axis = 1).T - two_d(vstar))/sigma\<close> with
  \<open>vstar = np.max(Phi.T - two_d(v), axis = 0)\<close>, and
  \<open>(Phi - two_d(u) - np.repeat(two_d(ustar), nbX, axis = 1).T) / sigma\<close> with
  \<open>ustar = np.max(Phi - two_d(u), axis = 0)\<close>.  Each returns the maximum with the arguments.
\<close>

definition lse_u_args ::
  "fmt \<Rightarrow> arr2 \<Rightarrow> nat \<Rightarrow> real \<Rightarrow> npfloat list \<Rightarrow> pyerror + (npfloat list \<times> arr2)" where
  "lse_u_args R Phi nbX sigma v =
     bnd (bc22 (fsub R) (np_T Phi) (two_d v)) (\<lambda>D.
     bnd (max_axis0 D) (\<lambda>vstar.
     bnd (bc22 (fsub R) Phi (rep_T nbX v)) (\<lambda>E.
     bnd (bc22 (fsub R) E (two_d vstar)) (\<lambda>F.
     Inr (vstar, map2d (\<lambda>x. fdiv R x (Fin sigma)) F)))))"

definition lse_v_args ::
  "fmt \<Rightarrow> arr2 \<Rightarrow> nat \<Rightarrow> real \<Rightarrow> npfloat list \<Rightarrow> pyerror + (npfloat list \<times> arr2)" where
  "lse_v_args R Phi nbX sigma u =
     bnd (bc22 (fsub R) Phi (two_d u)) (\<lambda>D.
     bnd (max_axis0 D) (\<lambda>ustar.
     bnd (bc22 (fsub R) D (rep_T nbX ustar)) (\<lambda>F.
     Inr (ustar, map2d (\<lambda>x. fdiv R x (Fin sigma)) F))))"

text \<open>
  \<open>error = np.max(abs(u - uprec))\<close>; \<open>uprec\<close> is the scalar \<open>np.NINF\<close> (\<open>None\<close>) until the
  first \<open>uprec = u\<close>.
\<close>

definition lse_error :: "fmt \<Rightarrow> npfloat list \<Rightarrow> npfloat list option \<Rightarrow> pyerror + npfloat" where
  "lse_error R u uprec =
     bnd (case uprec of
            None \<Rightarrow> Inr (map (\<lambda>x. fsub R x NInf) u)
          | Some w \<Rightarrow> bc11 (fsub R) u w) (\<lambda>d.
     max1 (map fabs d))"

text \<open>
  The body of the loop:
  \<open>u = mu + vstar + sigma * np.log(np.sum(np.exp(...), axis=1))\<close>, \<open>error\<close>, \<open>uprec = u\<close>,
  \<open>KA = np.sum(np.exp(...), axis=0)\<close>, \<open>v = nu + ustar + sigma * np.log(KA)\<close>.
\<close>

definition lse_body ::
  "fmt \<Rightarrow> arr2 \<Rightarrow> npfloat list \<Rightarrow> npfloat list \<Rightarrow> nat \<Rightarrow> real \<Rightarrow> npfloat list \<Rightarrow>
   npfloat list option \<Rightarrow> pyerror + (npfloat list \<times> npfloat \<times> npfloat list)" where
  "lse_body R Phi mu nu nbX sigma v uprec =
     bnd (lse_u_args R Phi nbX sigma v) (\<lambda>(vstar, F).
     bnd (bc11 (fadd R) mu vstar) (\<lambda>mv.
     bnd (bc11 (fadd R) mv (sigma_log R sigma (sum_axis1 R (map2d (fexp R) F)))) (\<lambda>u.
     bnd (lse_error R u uprec) (\<lambda>error.
     bnd (lse_v_args R Phi nbX sigma u) (\<lambda>(ustar, G).
     let KA = sum_axis0 R (map2d (fexp R) G) in
     bnd (bc11 (fadd R) nu ustar) (\<lambda>nw.
     bnd (bc11 (fadd R) nw (sigma_log R sigma KA)) (\<lambda>v'.
     Inr (u, error, v'))))))))"

function lse_loop ::
  "fmt \<Rightarrow> arr2 \<Rightarrow> npfloat list \<Rightarrow> npfloat list \<Rightarrow> nat \<Rightarrow> real \<Rightarrow> real \<Rightarrow> real \<Rightarrow>
   npfloat list option \<Rightarrow> npfloat list \<Rightarrow> npfloat \<Rightarrow> nat \<Rightarrow>
   pyerror + (npfloat list option \<times> npfloat list \<times> npfloat \<times> nat)" where
  "lse_loop R Phi mu nu nbX sigma tol maxite u v error ite =
     (if fgt error (Fin tol) \<and> real ite < maxite then
        (case lse_body R Phi mu nu nbX sigma v u of
           Inl e \<Rightarrow> Inl e
         | Inr (u', error', v') \<Rightarrow>
             lse_loop R Phi mu nu nbX sigma tol maxite (Some u') v' error' (Suc ite))
      else Inr (u, v, error, ite))"
  by pat_completeness auto
termination
  by (relation "measure (\<lambda>(R, Phi, mu, nu, nbX, sigma, tol, maxite, u, v, error, ite).
                   nat \<lceil>maxite\<rceil> - ite)")
     (auto simp: zless_nat_eq_int_zless less_ceiling_iff intro!: diff_less_mono2)

text \<open>
  The log-sum-exp cell starts like the log-domain cell, with \<open>uprec = np.NINF\<close> and
  \<open>error = tol + 1\<close> (computed in the format).
\<close>

definition ipfp_lse ::
  "fmt \<Rightarrow> arr2 \<Rightarrow> npfloat list \<Rightarrow> npfloat list \<Rightarrow> nat \<Rightarrow> nat \<Rightarrow> real \<Rightarrow> real \<Rightarrow> real \<Rightarrow>
   pyerror + npfloat list result" where
  "ipfp_lse R Phi p q nbX nbY sigma tol maxite =
     (let v0 = replicate nbY (Fin 0);
          mu = neg_sigma_log R sigma p;
          nu = neg_sigma_log R sigma q;
          error0 = fadd R (Fin tol) (Fin 1)
      in bnd (lse_loop R Phi mu nu nbX sigma tol maxite None v0 error0 0) (\<lambda>(u, v, error, ite).
         finish R Phi nbX sigma maxite u v ite))"

section \<open>Exact arithmetic: finite arrays and the iteration in the spec's words\<close>

text \<open>
  A finite array is written by its length or shape and its real entries: \<open>fin1 n a\<close> is the
  one-dimensional array \<open>a 0, ..., a (n - 1)\<close>, \<open>fin2 n m K\<close> the array of shape \<open>(n, m)\<close>
  with entries \<open>K i j\<close>, \<open>col n a\<close> the column of shape \<open>(n, 1)\<close>.
\<close>

definition fin1 :: "nat \<Rightarrow> (nat \<Rightarrow> real) \<Rightarrow> npfloat list" where
  "fin1 n a = vec n (\<lambda>i. Fin (a i))"

definition fin2 :: "nat \<Rightarrow> nat \<Rightarrow> (nat \<Rightarrow> nat \<Rightarrow> real) \<Rightarrow> arr2" where
  "fin2 n m K = tab n m (\<lambda>i j. Fin (K i j))"

definition col :: "nat \<Rightarrow> (nat \<Rightarrow> real) \<Rightarrow> arr2" where
  "col n a = tab n 1 (\<lambda>i c. Fin (a i))"

text \<open>Strictly positive entries, and entries that are not negative.\<close>

definition pos_on :: "nat \<Rightarrow> (nat \<Rightarrow> real) \<Rightarrow> bool" where
  "pos_on n p = (\<forall>i<n. 0 < p i)"

definition nonneg_on :: "nat \<Rightarrow> (nat \<Rightarrow> real) \<Rightarrow> bool" where
  "nonneg_on n p = (\<forall>i<n. 0 \<le> p i)"

definition pos_on2 :: "nat \<Rightarrow> nat \<Rightarrow> (nat \<Rightarrow> nat \<Rightarrow> real) \<Rightarrow> bool" where
  "pos_on2 n m K = (\<forall>i<n. \<forall>j<m. 0 < K i j)"

text \<open>
  The kernel \<open>K = exp(Phi / sigma)\<close>, and the potential \<open>- sigma * log a\<close> that belongs to a
  scaling factor \<open>a\<close>.
\<close>

definition kernel :: "real \<Rightarrow> (nat \<Rightarrow> nat \<Rightarrow> real) \<Rightarrow> nat \<Rightarrow> nat \<Rightarrow> real" where
  "kernel sigma phi i j = exp (phi i j / sigma)"

definition pot :: "real \<Rightarrow> (nat \<Rightarrow> real) \<Rightarrow> nat \<Rightarrow> real" where
  "pot sigma a i = - sigma * ln (a i)"

text \<open>
  The iteration of the linear-domain engine as the spec words it:
  \<open>a_i \<leftarrow> p_i / \<Sum>_j K_ij b_j\<close>, the error
  \<open>max_j |(\<Sum>_i a_i K_ij) b_j / q_j - 1|\<close> with the new \<open>a\<close> and the old \<open>b\<close>, then
  \<open>b_j \<leftarrow> q_j / \<Sum>_i K_ij a_i\<close>; the loop runs while the error is above the tolerance and
  the count is below the cap.
\<close>

definition spec_a :: "nat \<Rightarrow> (nat \<Rightarrow> nat \<Rightarrow> real) \<Rightarrow> (nat \<Rightarrow> real) \<Rightarrow> (nat \<Rightarrow> real) \<Rightarrow> nat \<Rightarrow> real" where
  "spec_a m K p b i = p i / (\<Sum>j<m. K i j * b j)"

definition spec_error ::
  "nat \<Rightarrow> nat \<Rightarrow> (nat \<Rightarrow> nat \<Rightarrow> real) \<Rightarrow> (nat \<Rightarrow> real) \<Rightarrow> (nat \<Rightarrow> real) \<Rightarrow> (nat \<Rightarrow> real) \<Rightarrow> real" where
  "spec_error n m K q a b = Max ((\<lambda>j. \<bar>(\<Sum>i<n. a i * K i j) * b j / q j - 1\<bar>) ` {..<m})"

definition spec_b :: "nat \<Rightarrow> (nat \<Rightarrow> nat \<Rightarrow> real) \<Rightarrow> (nat \<Rightarrow> real) \<Rightarrow> (nat \<Rightarrow> real) \<Rightarrow> nat \<Rightarrow> real" where
  "spec_b n K q a j = q j / (\<Sum>i<n. K i j * a i)"

function lin_loop ::
  "nat \<Rightarrow> nat \<Rightarrow> (nat \<Rightarrow> nat \<Rightarrow> real) \<Rightarrow> (nat \<Rightarrow> real) \<Rightarrow> (nat \<Rightarrow> real) \<Rightarrow> real \<Rightarrow> real \<Rightarrow>
   (nat \<Rightarrow> real) option \<Rightarrow> (nat \<Rightarrow> real) \<Rightarrow> real \<Rightarrow> nat \<Rightarrow>
   (nat \<Rightarrow> real) option \<times> (nat \<Rightarrow> real) \<times> real \<times> nat" where
  "lin_loop n m K p q tol maxite a b e ite =
     (if tol < e \<and> real ite < maxite then
        lin_loop n m K p q tol maxite (Some (spec_a m K p b)) (spec_b n K q (spec_a m K p b))
          (spec_error n m K q (spec_a m K p b) b) (Suc ite)
      else (a, b, e, ite))"
  by pat_completeness auto
termination
  by (relation "measure (\<lambda>(n, m, K, p, q, tol, maxite, a, b, e, ite). nat \<lceil>maxite\<rceil> - ite)")
     (auto simp: zless_nat_eq_int_zless less_ceiling_iff intro!: diff_less_mono2)

definition lin_state ::
  "nat \<Rightarrow> nat \<Rightarrow> (nat \<Rightarrow> real) option \<times> (nat \<Rightarrow> real) \<times> real \<times> nat \<Rightarrow>
   arr2 option \<times> arr2 \<times> npfloat \<times> nat" where
  "lin_state n m s = (case s of (a, b, e, ite) \<Rightarrow> (map_option (col n) a, col m b, Fin e, ite))"

text \<open>The state of the log-domain loop that belongs to a state of the linear-domain loop.\<close>

definition log_state ::
  "nat \<Rightarrow> nat \<Rightarrow> real \<Rightarrow> (nat \<Rightarrow> real) option \<times> (nat \<Rightarrow> real) \<times> real \<times> nat \<Rightarrow>
   npfloat list option \<times> npfloat list \<times> npfloat \<times> nat" where
  "log_state n m sigma s =
     (case s of (a, b, e, ite) \<Rightarrow>
        (map_option (\<lambda>a. fin1 n (pot sigma a)) a, fin1 m (pot sigma b), Fin e, ite))"

text \<open>
  Entries that are not negative and not all zero; the potential \<open>- sigma * log a\<close> of a
  scaling factor that may be zero (\<open>+inf\<close> there, for a positive \<open>sigma\<close>), and the state of the
  log-domain loop with such potentials.
\<close>

definition mass_on :: "nat \<Rightarrow> (nat \<Rightarrow> real) \<Rightarrow> bool" where
  "mass_on n p = (nonneg_on n p \<and> (\<exists>i<n. 0 < p i))"

definition potx :: "real \<Rightarrow> (nat \<Rightarrow> real) \<Rightarrow> nat \<Rightarrow> npfloat" where
  "potx sigma a i = (if a i = 0 then PInf else Fin (pot sigma a i))"

definition log_state_x ::
  "nat \<Rightarrow> nat \<Rightarrow> real \<Rightarrow> (nat \<Rightarrow> real) option \<times> (nat \<Rightarrow> real) \<times> real \<times> nat \<Rightarrow>
   npfloat list option \<times> npfloat list \<times> npfloat \<times> nat" where
  "log_state_x n m sigma s =
     (case s of (a, b, e, ite) \<Rightarrow>
        (map_option (\<lambda>a. vec n (potx sigma a)) a, fin1 m (pot sigma b), Fin e, ite))"

text \<open>
  The stabilized iteration on the same scaling factors: the same two updates, with the error
  \<open>max_i |u_i - uprec_i|\<close> of the potentials \<open>u = - sigma * log a\<close>, infinite while there is
  no previous \<open>u\<close>.
\<close>

definition lse_err :: "nat \<Rightarrow> real \<Rightarrow> (nat \<Rightarrow> real) \<Rightarrow> (nat \<Rightarrow> real) option \<Rightarrow> npfloat" where
  "lse_err n sigma a aprev =
     (case aprev of
        None \<Rightarrow> PInf
      | Some a0 \<Rightarrow> Fin (Max ((\<lambda>i. \<bar>pot sigma a i - pot sigma a0 i\<bar>) ` {..<n})))"

function lse_loop_r ::
  "nat \<Rightarrow> nat \<Rightarrow> (nat \<Rightarrow> nat \<Rightarrow> real) \<Rightarrow> (nat \<Rightarrow> real) \<Rightarrow> (nat \<Rightarrow> real) \<Rightarrow> real \<Rightarrow> real \<Rightarrow> real \<Rightarrow>
   (nat \<Rightarrow> real) option \<Rightarrow> (nat \<Rightarrow> real) \<Rightarrow> npfloat \<Rightarrow> nat \<Rightarrow>
   (nat \<Rightarrow> real) option \<times> (nat \<Rightarrow> real) \<times> npfloat \<times> nat" where
  "lse_loop_r n m K p q sigma tol maxite aprev b e ite =
     (if fgt e (Fin tol) \<and> real ite < maxite then
        lse_loop_r n m K p q sigma tol maxite (Some (spec_a m K p b))
          (spec_b n K q (spec_a m K p b)) (lse_err n sigma (spec_a m K p b) aprev) (Suc ite)
      else (aprev, b, e, ite))"
  by pat_completeness auto
termination
  by (relation "measure (\<lambda>(n, m, K, p, q, sigma, tol, maxite, a, b, e, ite). nat \<lceil>maxite\<rceil> - ite)")
     (auto simp: zless_nat_eq_int_zless less_ceiling_iff intro!: diff_less_mono2)

definition lse_state ::
  "nat \<Rightarrow> nat \<Rightarrow> real \<Rightarrow> (nat \<Rightarrow> real) option \<times> (nat \<Rightarrow> real) \<times> npfloat \<times> nat \<Rightarrow>
   npfloat list option \<times> npfloat list \<times> npfloat \<times> nat" where
  "lse_state n m sigma s =
     (case s of (a, b, e, ite) \<Rightarrow>
        (map_option (\<lambda>a. fin1 n (pot sigma a)) a, fin1 m (pot sigma b), e, ite))"

text \<open>A vector and a kernel given by two values: one at index 0, one everywhere else.\<close>

definition v2 :: "real \<Rightarrow> real \<Rightarrow> nat \<Rightarrow> real" where
  "v2 x y i = (if i = 0 then x else y)"

definition k2 :: "real \<Rightarrow> real \<Rightarrow> nat \<Rightarrow> nat \<Rightarrow> real" where
  "k2 d c i j = (if (i = 0) = (j = 0) then d else c)"

text \<open>The two maxima of the stabilized iteration over the reals.\<close>

definition vstar_r :: "nat \<Rightarrow> (nat \<Rightarrow> nat \<Rightarrow> real) \<Rightarrow> (nat \<Rightarrow> real) \<Rightarrow> nat \<Rightarrow> real" where
  "vstar_r m phi v i = Max ((\<lambda>j. phi i j - v j) ` {..<m})"

definition ustar_r :: "nat \<Rightarrow> (nat \<Rightarrow> nat \<Rightarrow> real) \<Rightarrow> (nat \<Rightarrow> real) \<Rightarrow> nat \<Rightarrow> real" where
  "ustar_r n phi u j = Max ((\<lambda>i. phi i j - u i) ` {..<n})"



text \<open>Two values, or two arrays entry by entry, that are finite and differ by at most \<open>tol\<close>.\<close>

fun close_to :: "real \<Rightarrow> npfloat \<Rightarrow> npfloat \<Rightarrow> bool" where
  "close_to tol (Fin x) (Fin y) = (\<bar>x - y\<bar> \<le> tol)"
| "close_to tol x y = False"

definition all_close :: "real \<Rightarrow> npfloat list \<Rightarrow> npfloat list \<Rightarrow> bool" where
  "all_close tol xs ys = list_all2 (close_to tol) xs ys"

text \<open>The value \<open>np.sum(pi * Phi) - sigma * np.sum(pi * np.log(pi))\<close> of a positive coupling.\<close>

definition obj_r :: "nat \<Rightarrow> nat \<Rightarrow> real \<Rightarrow> (nat \<Rightarrow> nat \<Rightarrow> real) \<Rightarrow> (nat \<Rightarrow> nat \<Rightarrow> real) \<Rightarrow> real" where
  "obj_r n m sigma phi P =
     (\<Sum>k<n * m. P (k div m) (k mod m) * phi (k div m) (k mod m))
     - sigma * (\<Sum>k<n * m. P (k div m) (k mod m) * ln (P (k div m) (k mod m)))"

text \<open>
  A format keeps the real \<open>c\<close> when rounding never crosses it: a result at or above \<open>c\<close> is
  rounded to a value at or above \<open>c\<close>, one at or below \<open>c\<close> to a value at or below \<open>c\<close> (so
  \<open>c\<close> itself is kept).  A format is within \<open>L\<close> when it keeps 0, 1, \<open>L\<close> and \<open>-L\<close>.
\<close>

definition keeps :: "fmt \<Rightarrow> real \<Rightarrow> bool" where
  "keeps R c = (\<forall>x. (c \<le> x \<longrightarrow> fge (R x) c) \<and> (x \<le> c \<longrightarrow> fle (R x) c))"

definition rounds_within :: "fmt \<Rightarrow> real \<Rightarrow> bool" where
  "rounds_within R L = (keeps R 0 \<and> keeps R 1 \<and> keeps R L \<and> keeps R (- L))"

text \<open>
  Entries between 0 and 1, entries of magnitude at most \<open>L\<close>, and the largest finite number
  of binary64, \<open>(2 - 2^-52) 2^1023\<close>.
\<close>

definition unit_on :: "nat \<Rightarrow> (nat \<Rightarrow> real) \<Rightarrow> bool" where
  "unit_on n p = (\<forall>i<n. 0 \<le> p i \<and> p i \<le> 1)"

definition bounded_on2 :: "nat \<Rightarrow> nat \<Rightarrow> real \<Rightarrow> (nat \<Rightarrow> nat \<Rightarrow> real) \<Rightarrow> bool" where
  "bounded_on2 n m L phi = (\<forall>i<n. \<forall>j<m. \<bar>phi i j\<bar> \<le> L)"

definition max_float64 :: real where
  "max_float64 = 2 ^ 1024 - 2 ^ 971"

text \<open>
  \<open>vstar = np.max(Phi.T - two_d(v), axis = 0)\<close> entry by entry, in any format: the maximum over
  \<open>j\<close> of \<open>Phi[i][j] - v[j]\<close>, taken from the left.
\<close>

definition vmax :: "fmt \<Rightarrow> nat \<Rightarrow> (nat \<Rightarrow> nat \<Rightarrow> npfloat) \<Rightarrow> (nat \<Rightarrow> npfloat) \<Rightarrow> nat \<Rightarrow> npfloat" where
  "vmax R m phi v i =
     foldl fmax (fsub R (phi i 0) (v 0)) (vec (m - 1) (\<lambda>j. fsub R (phi i (Suc j)) (v (Suc j))))"

declare ipfp1_loop.simps [simp del] log_loop.simps [simp del] lse_loop.simps [simp del]
  lin_loop.simps [simp del] lse_loop_r.simps [simp del]

section \<open>Arrays built by shape\<close>

lemma length_vec [simp]: "length (vec n f) = n"
  by (simp add: vec_def)

lemma nth_vec [simp]: "i < n \<Longrightarrow> vec n f ! i = f i"
  by (simp add: vec_def)

lemma vec_cong: "(\<And>i. i < n \<Longrightarrow> f i = g i) \<Longrightarrow> vec n f = vec n g"
  by (simp add: vec_def)

lemma map_vec [simp]: "map g (vec n f) = vec n (\<lambda>i. g (f i))"
  by (simp add: vec_def)

lemma vec_nth_eq: "n = length xs \<Longrightarrow> vec n (\<lambda>i. xs ! i) = xs"
  by (simp add: vec_def map_nth)

lemma replicate_vec: "replicate n c = vec n (\<lambda>i. c)"
  by (simp add: vec_def map_replicate_const)

lemma vec_Suc: "vec (Suc n) f = vec n f @ [f n]"
  by (simp add: vec_def)

lemma vec_0 [simp]: "vec 0 f = []"
  by (simp add: vec_def)

lemma nrows_tab [simp]: "nrows (tab r c f) = r"
  by (simp add: nrows_def tab_def)

lemma ncols_tab [simp]: "ncols (tab r c f) = c"
  by (simp add: tab_def)

lemma el_tab [simp]: "i < r \<Longrightarrow> j < c \<Longrightarrow> el (tab r c f) i j = f i j"
  by (simp add: el_def tab_def)

lemma tab_cong: "(\<And>i j. i < r \<Longrightarrow> j < c \<Longrightarrow> f i j = g i j) \<Longrightarrow> tab r c f = tab r c g"
  by (simp add: tab_def vec_def)

lemma tab_eq_iff: "tab r c f = tab r c g \<longleftrightarrow> (\<forall>i<r. \<forall>j<c. f i j = g i j)"
  by (auto simp add: tab_def vec_def)

lemma map2d_tab [simp]: "map2d g (tab r c f) = tab r c (\<lambda>i j. g (f i j))"
  by (simp add: map2d_def tab_def vec_def)

lemma bidx_less: "i < n \<Longrightarrow> bidx n i = i"
  by (auto simp: bidx_def)

lemma bidx_1 [simp]: "bidx (Suc 0) i = 0"
  by (simp add: bidx_def)

lemma bdim_same [simp]: "bdim n n = Some n"
  by (simp add: bdim_def)

lemma bdim_1 [simp]: "bdim n (Suc 0) = Some n"
  by (simp add: bdim_def)

lemma bdim_1' [simp]: "bdim (Suc 0) n = Some n"
  by (auto simp add: bdim_def)

lemma bc22_same [simp]:
  "bc22 g (tab r c f) (tab r c f') = Inr (tab r c (\<lambda>i j. g (f i j) (f' i j)))"
  by (auto simp: bc22_def bidx_less intro!: tab_cong)

lemma bc22_col [simp]:
  "bc22 g (tab r c f) (tab r (Suc 0) f') = Inr (tab r c (\<lambda>i j. g (f i j) (f' i 0)))"
  by (auto simp: bc22_def bidx_less intro!: tab_cong)

lemma bc22_row [simp]:
  "bc22 g (tab r c f) (tab (Suc 0) c f') = Inr (tab r c (\<lambda>i j. g (f i j) (f' 0 j)))"
  by (auto simp: bc22_def bidx_less intro!: tab_cong)

lemma bc11_same [simp]:
  "bc11 g (vec n f) (vec n f') = Inr (vec n (\<lambda>i. g (f i) (f' i)))"
  by (auto simp: bc11_def bidx_less intro!: vec_cong)

lemma as_row_vec [simp]: "as_row (vec n f) = tab 1 n (\<lambda>i j. f j)"
  by (auto simp: as_row_def intro!: tab_cong)

lemma two_d_vec [simp]: "two_d (vec n f) = tab n 1 (\<lambda>i j. f i)"
  by (auto simp: two_d_def intro!: tab_cong)

lemma np_T_tab [simp]: "np_T (tab r c f) = tab c r (\<lambda>i j. f j i)"
  by (auto simp: np_T_def intro!: tab_cong)

lemma flatten_col [simp]: "flatten (tab n (Suc 0) f) = vec n (\<lambda>i. f i 0)"
  by (auto simp: flatten_def intro!: vec_cong)

lemma flatten_row [simp]: "flatten (tab (Suc 0) n f) = vec n (\<lambda>j. f 0 j)"
  by (auto simp: flatten_def intro!: vec_cong)

lemma flatten_F_col [simp]: "flatten_F (tab n (Suc 0) f) = vec n (\<lambda>i. f i 0)"
  by (auto simp: flatten_F_def intro!: vec_cong)

lemma repeat_axis1_col [simp]: "repeat_axis1 k (tab n (Suc 0) f) = tab n k (\<lambda>i j. f i 0)"
  by (auto simp: repeat_axis1_def intro!: tab_cong)

lemma rep_T_vec [simp]: "rep_T k (vec n f) = tab k n (\<lambda>i j. f j)"
  by (simp add: rep_T_def)

lemma matmul_tab:
  "matmul R (tab r n f) (tab n c g) =
     Inr (tab r c (\<lambda>i j. fsum R (vec n (\<lambda>k. fmul R (f i k) (g k j)))))"
  by (auto simp: matmul_def intro!: tab_cong arg_cong[where f="fsum R"] vec_cong)

lemma sum_axis1_tab [simp]:
  "sum_axis1 R (tab r c f) = vec r (\<lambda>i. fsum R (vec c (\<lambda>j. f i j)))"
  by (auto simp: sum_axis1_def intro!: vec_cong arg_cong[where f="fsum R"])

lemma sum_axis0_tab [simp]:
  "sum_axis0 R (tab r c f) = vec c (\<lambda>j. fsum R (vec r (\<lambda>i. f i j)))"
  by (auto simp: sum_axis0_def intro!: vec_cong arg_cong[where f="fsum R"])

lemma foldl_fadd_exact: "foldl (fadd exact) (Fin a) (map Fin xs) = Fin (a + sum_list xs)"
  by (induction xs arbitrary: a) (simp_all add: exact_def add.assoc)

lemma fsum_exact [simp]: "fsum exact (vec n (\<lambda>i. Fin (f i))) = Fin (\<Sum>i<n. f i)"
proof -
  have "vec n (\<lambda>i. Fin (f i)) = map Fin (map f [0..<n])"
    by (simp add: vec_def)
  moreover have "sum_list (map f [0..<n]) = (\<Sum>i<n. f i)"
    by (simp add: interv_sum_list_conv_sum_set_nat atLeast0LessThan)
  ultimately show ?thesis
    using foldl_fadd_exact[of 0 "map f [0..<n]"] by (simp add: fsum_def)
qed

lemma fmax_Fin [simp]: "fmax (Fin a) (Fin b) = Fin (max a b)"
  by (simp add: fmax_def max_def)

lemma foldl_fmax_Fin: "foldl fmax (Fin a) (map Fin xs) = Fin (Max (set (a # xs)))"
proof (induction xs arbitrary: a)
  case Nil
  then show ?case by simp
next
  case (Cons x xs)
  have "Max (insert (max a x) (set xs)) = Max (insert a (insert x (set xs)))"
    by (metis List.finite_set Max_insert Max_singleton finite.insertI insert_not_empty max.assoc)
  with Cons show ?case by simp
qed

lemma max1_vec_Fin:
  "max1 (vec m (\<lambda>j. Fin (e j))) =
     (if m = 0 then Inl ValueError else Inr (Fin (Max (e ` {..<m}))))"
proof (cases m)
  case 0
  then show ?thesis by simp
next
  case (Suc k)
  have "vec (Suc k) (\<lambda>j. Fin (e j)) = Fin (e 0) # map Fin (map e [1..<Suc k])"
    by (simp add: vec_def upt_rec[of 0] del: upt_Suc)
  moreover have "set (e 0 # map e [1..<Suc k]) = e ` {..<Suc k}"
  proof -
    have "{..<Suc k} = insert 0 {1..<Suc k}" by auto
    then show ?thesis by (simp del: upt_Suc)
  qed
  ultimately show ?thesis
    using Suc foldl_fmax_Fin[of "e 0" "map e [1..<Suc k]"] by (simp del: upt_Suc)
qed

lemma exact_Fin [simp]: "exact r = Fin r"
  by (simp add: exact_def)

lemma fdiv_Fin [simp]: "y \<noteq> 0 \<Longrightarrow> fdiv R (Fin x) (Fin y) = R (x / y)"
  by simp

lemma flog_Fin [simp]: "0 < x \<Longrightarrow> flog R (Fin x) = R (ln x)"
  by simp

declare fdiv.simps(1) [simp del] flog.simps(1) [simp del]

lemma fmul_exact [simp]: "fmul exact (Fin x) (Fin y) = Fin (x * y)"
  by (simp add: exact_def)

lemma fadd_exact [simp]: "fadd exact (Fin x) (Fin y) = Fin (x + y)"
  by (simp add: exact_def)

lemma fsub_exact [simp]: "fsub exact (Fin x) (Fin y) = Fin (x - y)"
  by (simp add: fsub_def)

lemma fexp_exact [simp]: "fexp exact (Fin x) = Fin (exp x)"
  by (simp add: exact_def)

lemma bnd_Inr [simp]: "bnd (Inr x) f = f x"
  by (simp add: bnd_def)

lemma bnd_Inl [simp]: "bnd (Inl e) f = Inl e"
  by (simp add: bnd_def)

lemma ipfp1_body_exact:
  assumes m: "0 < m"
    and kb: "\<And>i. i < n \<Longrightarrow> (\<Sum>j<m. K i j * b j) \<noteq> 0"
    and q: "\<And>j. j < m \<Longrightarrow> q j \<noteq> 0"
    and ka: "\<And>j. j < m \<Longrightarrow> (\<Sum>i<n. K i j * spec_a m K p b i) \<noteq> 0"
  shows "ipfp1_body exact (tab n m (\<lambda>i j. Fin (K i j))) (vec n (\<lambda>i. Fin (p i)))
           (vec m (\<lambda>j. Fin (q j))) (tab m 1 (\<lambda>j c. Fin (b j)))
         = Inr (tab n 1 (\<lambda>i c. Fin (spec_a m K p b i)),
                Fin (spec_error n m K q (spec_a m K p b) b),
                tab m 1 (\<lambda>j c. Fin (spec_b n K q (spec_a m K p b) j)))"
proof -
  let ?a = "spec_a m K p b"
  have a: "vec n (\<lambda>i. fdiv exact (Fin (p i)) (Fin (\<Sum>j<m. K i j * b j))) = vec n (\<lambda>i. Fin (?a i))"
    by (rule vec_cong) (simp add: kb spec_a_def)
  have bq: "vec m (\<lambda>j. fdiv exact (Fin (b j)) (Fin (q j))) = vec m (\<lambda>j. Fin (b j / q j))"
    by (rule vec_cong) (simp add: q)
  have qka: "tab m (Suc 0) (\<lambda>j c. fdiv exact (Fin (q j)) (Fin (\<Sum>k<n. ?a k * K k j)))
           = tab m (Suc 0) (\<lambda>j c. Fin (spec_b n K q ?a j))"
    by (rule tab_cong) (use ka in \<open>simp add: spec_b_def mult.commute\<close>)
  show ?thesis
    by (simp add: ipfp1_body_def matmul_tab a bq bc21_def bc12_def np_max_def max1_vec_Fin m qka
        spec_error_def)
qed

lemma sum_pos_on:
  assumes "0 < (m::nat)" "\<And>j. j < m \<Longrightarrow> 0 < f j"
  shows "0 < (\<Sum>j<m. f j :: real)"
proof (rule sum_pos)
  show "{..<m} \<noteq> {}" using assms(1) by (auto simp: lessThan_empty_iff)
qed (use assms in auto)

lemma kb_pos:
  assumes "0 < m" "pos_on2 n m K" "pos_on m b" "i < n"
  shows "0 < (\<Sum>j<m. K i j * b j)"
  using assms by (intro sum_pos_on) (auto simp: pos_on_def pos_on2_def)

lemma spec_a_pos:
  assumes "0 < m" "pos_on2 n m K" "pos_on m b" "pos_on n p"
  shows "pos_on n (spec_a m K p b)"
  using assms kb_pos[OF assms(1-3)] by (auto simp: pos_on_def spec_a_def)

lemma ka_pos:
  assumes "0 < n" "pos_on2 n m K" "pos_on n a" "j < m"
  shows "0 < (\<Sum>i<n. K i j * a i)"
  using assms by (intro sum_pos_on) (auto simp: pos_on_def pos_on2_def)

lemma spec_b_pos:
  assumes "0 < n" "pos_on2 n m K" "pos_on n a" "pos_on m q"
  shows "pos_on m (spec_b n K q a)"
  using assms ka_pos[OF assms(1-3)] by (auto simp: pos_on_def spec_b_def)

lemma ipfp1_body_pos:
  assumes "0 < n" "0 < m" "pos_on2 n m K" "pos_on n p" "pos_on m q" "pos_on m b"
  shows "ipfp1_body exact (fin2 n m K) (fin1 n p) (fin1 m q) (col m b)
         = Inr (col n (spec_a m K p b), Fin (spec_error n m K q (spec_a m K p b) b),
                col m (spec_b n K q (spec_a m K p b)))"
proof -
  have a: "pos_on n (spec_a m K p b)"
    using assms by (intro spec_a_pos)
  have 1: "\<And>i. i < n \<Longrightarrow> (\<Sum>j<m. K i j * b j) \<noteq> 0"
    using kb_pos[of m n K b] assms by fastforce
  have 2: "\<And>j. j < m \<Longrightarrow> q j \<noteq> 0"
    using assms by (fastforce simp: pos_on_def)
  have 3: "\<And>j. j < m \<Longrightarrow> (\<Sum>i<n. K i j * spec_a m K p b i) \<noteq> 0"
    using ka_pos[of n m K "spec_a m K p b"] assms a by fastforce
  show ?thesis
    unfolding fin2_def fin1_def col_def
    by (rule ipfp1_body_exact) (use assms 1 2 3 in auto)
qed

lemma ipfp1_loop_refines:
  assumes "0 < n" "0 < m" "pos_on2 n m K" "pos_on n p" "pos_on m q" "pos_on m b"
  shows "ipfp1_loop exact (fin2 n m K) (fin1 n p) (fin1 m q) tol maxite
           (map_option (col n) a) (col m b) (Fin e) ite
         = Inr (lin_state n m (lin_loop n m K p q tol maxite a b e ite))"
  using assms
proof (induction n m K p q tol maxite a b e ite rule: lin_loop.induct)
  case (1 n m K p q tol maxite a b e ite)
  show ?case
  proof (cases "tol < e \<and> real ite < maxite")
    case True
    have b': "pos_on m (spec_b n K q (spec_a m K p b))"
      using "1.prems" by (intro spec_b_pos spec_a_pos)
    have "ipfp1_loop exact (fin2 n m K) (fin1 n p) (fin1 m q) tol maxite
            (map_option (col n) a) (col m b) (Fin e) ite
          = ipfp1_loop exact (fin2 n m K) (fin1 n p) (fin1 m q) tol maxite
              (map_option (col n) (Some (spec_a m K p b))) (col m (spec_b n K q (spec_a m K p b)))
              (Fin (spec_error n m K q (spec_a m K p b) b)) (Suc ite)"
      using True "1.prems"
      by (subst ipfp1_loop.simps) (simp add: ipfp1_body_pos)
    also have "\<dots> = Inr (lin_state n m (lin_loop n m K p q tol maxite (Some (spec_a m K p b))
                 (spec_b n K q (spec_a m K p b)) (spec_error n m K q (spec_a m K p b) b) (Suc ite)))"
      using True "1.prems" b' by (intro "1.IH") auto
    also have "\<dots> = Inr (lin_state n m (lin_loop n m K p q tol maxite a b e ite))"
      using True by (subst (2) lin_loop.simps) simp
    finally show ?thesis .
  next
    case False
    then show ?thesis
      by (subst ipfp1_loop.simps, subst lin_loop.simps) (auto simp: lin_state_def)
  qed
qed

lemma lin_loop_props:
  assumes "0 < n" "0 < m" "pos_on2 n m K" "pos_on n p" "pos_on m q" "pos_on m b"
    and "lin_loop n m K p q tol maxite a b e ite = (a', b', e', ite')"
  shows "pos_on m b' \<and> ite \<le> ite' \<and> \<not> (tol < e' \<and> real ite' < maxite) \<and>
         ((a', b', e', ite') = (a, b, e, ite) \<or>
          (ite < ite' \<and> (\<exists>b0. pos_on m b0 \<and> a' = Some (spec_a m K p b0) \<and>
              b' = spec_b n K q (spec_a m K p b0) \<and>
              e' = spec_error n m K q (spec_a m K p b0) b0)))"
  using assms
proof (induction n m K p q tol maxite a b e ite rule: lin_loop.induct)
  case (1 n m K p q tol maxite a b e ite)
  show ?case
  proof (cases "tol < e \<and> real ite < maxite")
    case True
    let ?a = "spec_a m K p b"
    let ?b = "spec_b n K q ?a"
    let ?e = "spec_error n m K q ?a b"
    have b': "pos_on m ?b"
      using "1.prems" by (intro spec_b_pos spec_a_pos)
    have step: "lin_loop n m K p q tol maxite (Some ?a) ?b ?e (Suc ite) = (a', b', e', ite')"
      using True "1.prems"(7) by (subst (asm) lin_loop.simps) simp
    have IH: "pos_on m b' \<and> Suc ite \<le> ite' \<and> \<not> (tol < e' \<and> real ite' < maxite) \<and>
         ((a', b', e', ite') = (Some ?a, ?b, ?e, Suc ite) \<or>
          (Suc ite < ite' \<and> (\<exists>b0. pos_on m b0 \<and> a' = Some (spec_a m K p b0) \<and>
              b' = spec_b n K q (spec_a m K p b0) \<and>
              e' = spec_error n m K q (spec_a m K p b0) b0)))"
      using True "1.prems"(1-5) b' step by (intro "1.IH") auto
    then show ?thesis
      using "1.prems"(6) by auto
  next
    case False
    then have "(a', b', e', ite') = (a, b, e, ite)"
      using "1.prems"(7) by (subst (asm) lin_loop.simps) (auto split: if_splits)
    then show ?thesis
      using False "1.prems"(6) by auto
  qed
qed

lemma col_sum_exact:
  assumes "0 < n" "pos_on2 n m K" "pos_on n a" "j < m"
  shows "(\<Sum>i<n. K i j * a i * spec_b n K q a j) = q j"
proof -
  have "(\<Sum>i<n. K i j * a i) \<noteq> 0"
    using ka_pos[OF assms] by simp
  moreover have "(\<Sum>i<n. K i j * a i * spec_b n K q a j) = (\<Sum>i<n. K i j * a i) * spec_b n K q a j"
    by (simp add: sum_distrib_right)
  ultimately show ?thesis
    by (simp add: spec_b_def)
qed

lemma row_sum_old:
  assumes "0 < m" "pos_on2 n m K" "pos_on m b" "i < n"
  shows "(\<Sum>j<m. K i j * spec_a m K p b i * b j) = p i"
proof -
  have nz: "(\<Sum>j<m. K i j * b j) \<noteq> 0"
    using kb_pos[OF assms] by simp
  have "(\<Sum>j<m. K i j * spec_a m K p b i * b j) = spec_a m K p b i * (\<Sum>j<m. K i j * b j)"
    by (simp add: sum_distrib_left mult_ac)
  with nz show ?thesis
    by (simp add: spec_a_def)
qed

lemma spec_error_bound:
  assumes "0 < m" "j < m"
  shows "\<bar>(\<Sum>i<n. a i * K i j) * b j / q j - 1\<bar> \<le> spec_error n m K q a b"
  unfolding spec_error_def using assms by (intro Max_ge) auto

lemma flat_index:
  assumes "k < n * m"
  shows "k div m < n \<and> k mod m < (m::nat)"
proof -
  have "0 < m" using assms by (cases m) auto
  then show ?thesis
    using assms by (simp add: less_mult_imp_div_less)
qed

lemma np_sum_tab: "np_sum R (tab n m f) = fsum R (vec (n * m) (\<lambda>k. f (k div m) (k mod m)))"
  unfolding np_sum_def flatten_def
  by (intro arg_cong[where f="fsum R"]) (auto intro!: vec_cong simp: flat_index)

lemma objective_exact:
  assumes "pos_on2 n m P"
  shows "objective exact sigma (fin2 n m phi) (fin2 n m P) = Inr (Fin (obj_r n m sigma phi P))"
proof -
  have "tab n m (\<lambda>i j. fmul exact (Fin (P i j)) (flog exact (Fin (P i j))))
      = tab n m (\<lambda>i j. Fin (P i j * ln (P i j)))"
    by (rule tab_cong) (use assms in \<open>simp add: pos_on2_def\<close>)
  then show ?thesis
    by (simp add: objective_def fin2_def np_sum_tab obj_r_def)
qed

lemma kernel_pos: "pos_on2 n m (kernel sigma phi)"
  by (simp add: pos_on2_def kernel_def)

lemma exp_over_fin2:
  "sigma \<noteq> 0 \<Longrightarrow> exp_over exact sigma (fin2 n m phi) = fin2 n m (kernel sigma phi)"
  by (simp add: exp_over_def fin2_def kernel_def)

lemma lin_loop_first:
  assumes "0 < maxite"
  shows "lin_loop n m K p q tol maxite None b (tol + 1) 0
       = lin_loop n m K p q tol maxite (Some (spec_a m K p b)) (spec_b n K q (spec_a m K p b))
          (spec_error n m K q (spec_a m K p b) b) (Suc 0)"
  using assms by (subst lin_loop.simps) simp

lemma ipfp1_loop_run:
  assumes n: "0 < n" and m: "0 < m" and K: "pos_on2 n m K" and p: "pos_on n p" and q: "pos_on m q"
    and maxite: "0 < maxite"
    and fin: "lin_loop n m K p q tol maxite None (\<lambda>j. 1) (tol + 1) 0 = (a', b', e', ite')"
  shows "\<exists>a b0. a' = Some a \<and> pos_on m b0 \<and> a = spec_a m K p b0 \<and> pos_on n a \<and> pos_on m b' \<and>
           b' = spec_b n K q a \<and> e' = spec_error n m K q a b0 \<and> 1 \<le> ite' \<and>
           \<not> (tol < e' \<and> real ite' < maxite) \<and>
           ipfp1_loop exact (fin2 n m K) (fin1 n p) (fin1 m q) tol maxite None
             (two_d (replicate m (Fin 1))) (fadd exact (Fin tol) (Fin 1)) 0
           = Inr (Some (col n a), col m b', Fin e', ite')"
proof -
  have one: "pos_on m (\<lambda>j. 1)" by (simp add: pos_on_def)
  let ?a1 = "spec_a m K p (\<lambda>j. 1)"
  have b1: "pos_on m (spec_b n K q ?a1)"
    by (rule spec_b_pos[OF n K spec_a_pos[OF m K one p] q])
  have fin': "lin_loop n m K p q tol maxite (Some ?a1) (spec_b n K q ?a1)
          (spec_error n m K q ?a1 (\<lambda>j. 1)) (Suc 0) = (a', b', e', ite')"
    using fin lin_loop_first[OF maxite] by simp
  from lin_loop_props[OF n m K p q b1 fin']
  have props: "pos_on m b'" "\<not> (tol < e' \<and> real ite' < maxite)" "Suc 0 \<le> ite'"
    and cases: "(a', b', e', ite') = (Some ?a1, spec_b n K q ?a1, spec_error n m K q ?a1 (\<lambda>j. 1), Suc 0) \<or>
      (\<exists>b0. pos_on m b0 \<and> a' = Some (spec_a m K p b0) \<and>
              b' = spec_b n K q (spec_a m K p b0) \<and>
              e' = spec_error n m K q (spec_a m K p b0) b0)"
    by auto
  from cases one obtain b0 where b0: "pos_on m b0" "a' = Some (spec_a m K p b0)"
     "b' = spec_b n K q (spec_a m K p b0)" "e' = spec_error n m K q (spec_a m K p b0) b0"
    by auto
  have a: "pos_on n (spec_a m K p b0)"
    by (rule spec_a_pos[OF m K b0(1) p])
  have B0: "two_d (replicate m (Fin 1)) = col m (\<lambda>j. 1)"
    by (simp add: replicate_vec col_def)
  have "ipfp1_loop exact (fin2 n m K) (fin1 n p) (fin1 m q) tol maxite None
          (two_d (replicate m (Fin 1))) (fadd exact (Fin tol) (Fin 1)) 0
        = Inr (Some (col n (spec_a m K p b0)), col m b', Fin e', ite')"
    using ipfp1_loop_refines[OF n m K p q one, of tol maxite None "tol + 1" 0] fin b0
    by (simp add: lin_state_def B0)
  then show ?thesis
    using b0 props a by auto
qed

lemma implied_pi_exact:
  "implied_pi exact (fin2 n m K) (col n a) (col m b) = Inr (fin2 n m (\<lambda>i j. K i j * a i * b j))"
  by (simp add: implied_pi_def fin2_def col_def)

lemma sum_axis0_fin2: "sum_axis0 exact (fin2 n m P) = fin1 m (\<lambda>j. \<Sum>i<n. P i j)"
  by (simp add: fin2_def fin1_def)

lemma sum_axis1_fin2: "sum_axis1 exact (fin2 n m P) = fin1 n (\<lambda>i. \<Sum>j<m. P i j)"
  by (simp add: fin2_def fin1_def)

lemma fin1_cong: "(\<And>i. i < n \<Longrightarrow> f i = g i) \<Longrightarrow> fin1 n f = fin1 n g"
  unfolding fin1_def by (rule vec_cong) simp

lemma col_sums_q:
  assumes "0 < n" "pos_on2 n m K" "pos_on n a"
  shows "sum_axis0 exact (fin2 n m (\<lambda>i j. K i j * a i * spec_b n K q a j)) = fin1 m q"
  unfolding sum_axis0_fin2 by (rule fin1_cong) (rule col_sum_exact[OF assms])

lemma ipfp1_exact:
  assumes m: "0 < m" and sigma: "sigma \<noteq> 0" and p: "pos_on 5 p" and q: "pos_on m q"
    and maxite: "0 < maxite"
    and fin: "lin_loop 5 m (kernel sigma phi) p q tol maxite None (\<lambda>j. 1) (tol + 1) 0 = (a', b', e', ite')"
  shows "\<exists>a b0. a' = Some a \<and> pos_on m b0 \<and> a = spec_a m (kernel sigma phi) p b0 \<and>
           pos_on 5 a \<and> pos_on m b' \<and>
           b' = spec_b 5 (kernel sigma phi) q a \<and>
           e' = spec_error 5 m (kernel sigma phi) q a b0 \<and>
           \<not> (tol < e' \<and> real ite' < maxite) \<and>
           ipfp1 exact (fin2 5 m phi) (fin1 5 p) (fin1 m q) m sigma tol maxite =
             Inr \<lparr>res_status = status_of ite' maxite, res_ite = ite',
                  res_u = col 5 (\<lambda>i. - sigma * ln (a i)),
                  res_v = col m (\<lambda>j. - sigma * ln (b' j)),
                  res_pi = fin2 5 m (\<lambda>i j. kernel sigma phi i j * a i * b' j),
                  res_val = Fin (obj_r 5 m sigma phi (\<lambda>i j. kernel sigma phi i j * a i * b' j))\<rparr>"
proof -
  let ?K = "kernel sigma phi"
  have K: "pos_on2 5 m ?K" by (rule kernel_pos)
  have n: "0 < (5::nat)" by simp
  from ipfp1_loop_run[OF n m K p q maxite fin]
  obtain a b0 where r: "a' = Some a" "pos_on m b0" "a = spec_a m ?K p b0" "pos_on 5 a" "pos_on m b'"
      "b' = spec_b 5 ?K q a" "e' = spec_error 5 m ?K q a b0" "\<not> (tol < e' \<and> real ite' < maxite)"
    and loop: "ipfp1_loop exact (fin2 5 m ?K) (fin1 5 p) (fin1 m q) tol maxite None
             (two_d (replicate m (Fin 1))) (fadd exact (Fin tol) (Fin 1)) 0
           = Inr (Some (col 5 a), col m b', Fin e', ite')"
    by blast
  have loop': "ipfp1_loop exact (fin2 5 m ?K) (fin1 5 p) (fin1 m q) tol maxite None
             (two_d (replicate m (Fin 1))) (Fin (tol + 1)) 0
           = Inr (Some (col 5 a), col m b', Fin e', ite')"
    using loop by simp
  have P: "pos_on2 5 m (\<lambda>i j. ?K i j * a i * b' j)"
    using K r(4,5) by (auto simp: pos_on2_def pos_on_def)
  have u: "map2d (\<lambda>x. fmul exact (Fin (- sigma)) (flog exact x)) (col 5 a) = col 5 (\<lambda>i. - sigma * ln (a i))"
    unfolding col_def map2d_tab by (rule tab_cong) (use r(4) in \<open>simp add: pos_on_def\<close>)
  have v: "map2d (\<lambda>x. fmul exact (Fin (- sigma)) (flog exact x)) (col m b') = col m (\<lambda>j. - sigma * ln (b' j))"
    unfolding col_def map2d_tab by (rule tab_cong) (use r(5) in \<open>simp add: pos_on_def\<close>)
  have KA: "bc22 (fmul exact) (fin2 5 m ?K) (col 5 a) = Inr (fin2 5 m (\<lambda>i j. ?K i j * a i))"
    by (simp add: fin2_def col_def)
  have pi': "bc22 (fmul exact) (fin2 5 m (\<lambda>i j. ?K i j * a i)) (np_T (repeat_axis1 5 (col m b')))
           = Inr (fin2 5 m (\<lambda>i j. ?K i j * a i * b' j))"
    by (simp add: fin2_def col_def)
  have "ipfp1 exact (fin2 5 m phi) (fin1 5 p) (fin1 m q) m sigma tol maxite =
             Inr \<lparr>res_status = status_of ite' maxite, res_ite = ite',
                  res_u = col 5 (\<lambda>i. - sigma * ln (a i)),
                  res_v = col m (\<lambda>j. - sigma * ln (b' j)),
                  res_pi = fin2 5 m (\<lambda>i j. ?K i j * a i * b' j),
                  res_val = Fin (obj_r 5 m sigma phi (\<lambda>i j. ?K i j * a i * b' j))\<rparr>"
    unfolding ipfp1_def
    by (simp add: exp_over_fin2[OF sigma] loop' u v KA pi' objective_exact[OF P])
  then show ?thesis
    using r by auto
qed

lemma max_axis0_fin:
  assumes "0 < r"
  shows "max_axis0 (tab r c (\<lambda>i j. Fin (f i j))) = Inr (vec c (\<lambda>j. Fin (Max ((\<lambda>i. f i j) ` {..<r}))))"
proof -
  obtain k where r: "r = Suc k" using assms by (cases r) auto
  have "foldl fmax (el (tab r c (\<lambda>i j. Fin (f i j))) 0 j)
          (vec (r - 1) (\<lambda>i. el (tab r c (\<lambda>i j. Fin (f i j))) (Suc i) j))
        = Fin (Max ((\<lambda>i. f i j) ` {..<r}))" if j: "j < c" for j
  proof -
    have 1: "vec (r - 1) (\<lambda>i. el (tab r c (\<lambda>i j. Fin (f i j))) (Suc i) j)
           = map Fin (map (\<lambda>i. f (Suc i) j) [0..<k])"
      unfolding vec_def using r j by simp
    have 2: "set (f 0 j # map (\<lambda>i. f (Suc i) j) [0..<k]) = (\<lambda>i. f i j) ` {..<r}"
    proof -
      have "{..<Suc k} = insert 0 (Suc ` {..<k})"
        by (auto simp: lessThan_Suc_eq_insert_0)
      then show ?thesis
        unfolding r by (simp add: image_image atLeast0LessThan)
    qed
    show ?thesis
      unfolding 1 using foldl_fmax_Fin[of "f 0 j" "map (\<lambda>i. f (Suc i) j) [0..<k]"] 2 r j
      by simp
  qed
  then show ?thesis
    using assms by (auto simp: max_axis0_def intro!: vec_cong)
qed

lemma lse_u_args_exact:
  assumes "0 < m" "sigma \<noteq> 0"
  shows "lse_u_args exact (fin2 n m phi) n sigma (fin1 m v)
       = Inr (fin1 n (vstar_r m phi v),
              fin2 n m (\<lambda>i j. (phi i j - v j - vstar_r m phi v i) / sigma))"
  using assms
  by (simp add: lse_u_args_def fin2_def fin1_def max_axis0_fin vstar_r_def)

lemma lse_v_args_exact:
  assumes "0 < n" "sigma \<noteq> 0"
  shows "lse_v_args exact (fin2 n m phi) n sigma (fin1 n u)
       = Inr (fin1 m (ustar_r n phi u),
              fin2 n m (\<lambda>i j. (phi i j - u i - ustar_r n phi u j) / sigma))"
  using assms
  by (simp add: lse_v_args_def fin2_def fin1_def max_axis0_fin ustar_r_def)






lemma lse_identity:
  assumes sigma: "sigma \<noteq> 0" and m: "0 < (m::nat)" and k: "\<And>j. j < m \<Longrightarrow> 0 < k j"
    and c: "0 < c"
  shows "pot sigma (\<lambda>_. c) 0 + M + sigma * ln (\<Sum>j<m. exp ((phi j - pot sigma k j - M) / sigma))
       = pot sigma (\<lambda>_. c / (\<Sum>j<m. exp (phi j / sigma) * k j)) 0"
proof -
  let ?S = "\<Sum>j<m. exp (phi j / sigma) * k j"
  have S: "0 < ?S"
    by (rule sum_pos_on[OF m]) (use k in auto)
  have "exp ((phi j - pot sigma k j - M) / sigma) = exp (- M / sigma) * (exp (phi j / sigma) * k j)"
    if "j < m" for j
  proof -
    have "(phi j - pot sigma k j - M) / sigma = - M / sigma + phi j / sigma + ln (k j)"
      using sigma by (simp add: pot_def field_simps)
    then have "exp ((phi j - pot sigma k j - M) / sigma)
             = exp (- M / sigma) * exp (phi j / sigma) * exp (ln (k j))"
      by (simp only: exp_add)
    then show ?thesis
      using k[OF that] by (simp add: mult_ac)
  qed
  then have "(\<Sum>j<m. exp ((phi j - pot sigma k j - M) / sigma)) = exp (- M / sigma) * ?S"
    by (simp add: sum_distrib_left)
  then have "ln (\<Sum>j<m. exp ((phi j - pot sigma k j - M) / sigma)) = - M / sigma + ln ?S"
    using S by (simp add: ln_mult)
  then have "sigma * ln (\<Sum>j<m. exp ((phi j - pot sigma k j - M) / sigma)) = - M + sigma * ln ?S"
    using sigma by (simp add: field_simps)
  moreover have "pot sigma (\<lambda>_. c / ?S) 0 = - sigma * ln c + sigma * ln ?S"
    using S c by (simp add: pot_def ln_div algebra_simps)
  ultimately show ?thesis
    by (simp add: pot_def)
qed

lemma lse_u_identity:
  assumes "sigma \<noteq> 0" "0 < m" "pos_on m b" "pos_on n p" "i < n"
  shows "pot sigma p i + M + sigma * ln (\<Sum>j<m. exp ((phi i j - pot sigma b j - M) / sigma))
       = pot sigma (spec_a m (kernel sigma phi) p b) i"
  using lse_identity[OF assms(1,2), of b "p i" M "phi i"] assms(3-5)
  by (simp add: pot_def spec_a_def kernel_def pos_on_def)

lemma lse_v_identity:
  assumes "sigma \<noteq> 0" "0 < n" "pos_on n a" "pos_on m q" "j < m"
  shows "pot sigma q j + M + sigma * ln (\<Sum>i<n. exp ((phi i j - pot sigma a i - M) / sigma))
       = pot sigma (spec_b n (kernel sigma phi) q a) j"
  using lse_identity[OF assms(1,2), of a "q j" M "\<lambda>i. phi i j"] assms(3-5)
  by (simp add: pot_def spec_b_def kernel_def pos_on_def)

lemma max1_PInf: "max1 (vec n (\<lambda>i. PInf)) = (if n = 0 then Inl ValueError else Inr PInf)"
proof (cases n)
  case 0
  then show ?thesis by simp
next
  case (Suc k)
  have "foldl fmax PInf (replicate j PInf) = PInf" for j
    by (induction j) (simp_all add: fmax_def)
  moreover have "vec (Suc k) (\<lambda>i. PInf) = PInf # replicate k PInf"
    by (simp add: replicate_vec[symmetric] del: replicate_Suc flip: replicate_Suc)
  ultimately show ?thesis
    using Suc by simp
qed

lemma lse_error_exact:
  assumes "0 < n"
  shows "lse_error exact (fin1 n (pot sigma a)) (map_option (\<lambda>a. fin1 n (pot sigma a)) aprev)
       = Inr (lse_err n sigma a aprev)"
proof (cases aprev)
  case None
  then show ?thesis
    using assms by (simp add: lse_error_def fin1_def fsub_def max1_PInf lse_err_def)
next
  case (Some a0)
  then show ?thesis
    using assms by (simp add: lse_error_def fin1_def max1_vec_Fin lse_err_def)
qed

lemma exp_sum_pos: "0 < (m::nat) \<Longrightarrow> 0 < (\<Sum>j<m. exp (f j) :: real)"
  by (rule sum_pos_on) auto

lemma lse_body_exact:
  assumes n: "0 < n" and m: "0 < m" and sigma: "sigma \<noteq> 0"
    and p: "pos_on n p" and q: "pos_on m q" and b: "pos_on m b"
  shows "lse_body exact (fin2 n m phi) (fin1 n (pot sigma p)) (fin1 m (pot sigma q)) n sigma
           (fin1 m (pot sigma b)) (map_option (\<lambda>a. fin1 n (pot sigma a)) aprev)
       = Inr (fin1 n (pot sigma (spec_a m (kernel sigma phi) p b)),
              lse_err n sigma (spec_a m (kernel sigma phi) p b) aprev,
              fin1 m (pot sigma (spec_b n (kernel sigma phi) q (spec_a m (kernel sigma phi) p b))))"
proof -
  let ?K = "kernel sigma phi"
  let ?a = "spec_a m ?K p b"
  let ?v = "pot sigma b"
  let ?u = "pot sigma ?a"
  have a: "pos_on n ?a"
    using m kernel_pos b p by (intro spec_a_pos)
  have u: "vec n (\<lambda>i. fadd exact (Fin (pot sigma p i + vstar_r m phi ?v i))
              (fmul exact (Fin sigma) (flog exact
                 (Fin (\<Sum>j<m. exp ((phi i j - ?v j - vstar_r m phi ?v i) / sigma))))))
         = fin1 n ?u"
    unfolding fin1_def
    by (rule vec_cong) (simp add: exp_sum_pos[OF m] lse_u_identity[OF sigma m b p])
  have v: "vec m (\<lambda>j. fadd exact (Fin (pot sigma q j + ustar_r n phi ?u j))
              (fmul exact (Fin sigma) (flog exact
                 (Fin (\<Sum>i<n. exp ((phi i j - ?u i - ustar_r n phi ?u j) / sigma))))))
         = fin1 m (pot sigma (spec_b n ?K q ?a))"
    unfolding fin1_def
    by (rule vec_cong) (simp add: exp_sum_pos[OF n] lse_v_identity[OF sigma n a q])
  show ?thesis
    unfolding lse_body_def lse_u_args_exact[OF m sigma]
    apply (simp add: sigma_log_def)
    apply (simp add: fin1_def fin2_def u[unfolded fin1_def])
    apply (simp add: fin1_def[symmetric] fin2_def[symmetric] lse_error_exact[OF n] lse_v_args_exact[OF n sigma])
    apply (simp add: fin1_def fin2_def v[unfolded fin1_def])
    done
qed

lemma lse_loop_refines:
  assumes "0 < n" "0 < m" "sigma \<noteq> 0" "pos_on n p" "pos_on m q" "pos_on m b"
  shows "lse_loop exact (fin2 n m phi) (fin1 n (pot sigma p)) (fin1 m (pot sigma q)) n sigma tol maxite
           (map_option (\<lambda>a. fin1 n (pot sigma a)) aprev) (fin1 m (pot sigma b)) e ite
         = Inr (lse_state n m sigma
                  (lse_loop_r n m (kernel sigma phi) p q sigma tol maxite aprev b e ite))"
proof -
  define K where "K = kernel sigma phi"
  have K: "pos_on2 n m K"
    unfolding K_def by (rule kernel_pos)
  have "pos_on m b \<Longrightarrow>
     lse_loop exact (fin2 n m phi) (fin1 n (pot sigma p)) (fin1 m (pot sigma q)) n sigma tol maxite
           (map_option (\<lambda>a. fin1 n (pot sigma a)) aprev) (fin1 m (pot sigma b)) e ite
         = Inr (lse_state n m sigma (lse_loop_r n m K p q sigma tol maxite aprev b e ite))"
    using assms(1-5) K K_def
  proof (induction n m K p q sigma tol maxite aprev b e ite rule: lse_loop_r.induct)
    case (1 n m K p q sigma tol maxite aprev b e ite)
    show ?case
    proof (cases "fgt e (Fin tol) \<and> real ite < maxite")
      case True
      let ?a = "spec_a m K p b"
      let ?b = "spec_b n K q ?a"
      have b': "pos_on m ?b"
        using "1.prems" by (intro spec_b_pos spec_a_pos)
      have "lse_loop exact (fin2 n m phi) (fin1 n (pot sigma p)) (fin1 m (pot sigma q)) n sigma tol maxite
              (map_option (\<lambda>a. fin1 n (pot sigma a)) aprev) (fin1 m (pot sigma b)) e ite
          = lse_loop exact (fin2 n m phi) (fin1 n (pot sigma p)) (fin1 m (pot sigma q)) n sigma tol maxite
              (map_option (\<lambda>a. fin1 n (pot sigma a)) (Some ?a)) (fin1 m (pot sigma ?b))
              (lse_err n sigma ?a aprev) (Suc ite)"
        using True "1.prems"
        by (subst lse_loop.simps) (simp add: lse_body_exact)
      also have "\<dots> = Inr (lse_state n m sigma (lse_loop_r n m K p q sigma tol maxite (Some ?a) ?b
                   (lse_err n sigma ?a aprev) (Suc ite)))"
        using True "1.prems" b' by (intro "1.IH") auto
      also have "\<dots> = Inr (lse_state n m sigma (lse_loop_r n m K p q sigma tol maxite aprev b e ite))"
        using True by (subst (2) lse_loop_r.simps) simp
      finally show ?thesis .
    next
      case False
      then show ?thesis
        by (subst lse_loop.simps, subst lse_loop_r.simps) (auto simp: lse_state_def)
    qed
  qed
  then show ?thesis
    using assms(6) K_def by simp
qed

lemma lse_loop_props:
  assumes "0 < n" "0 < m" "pos_on2 n m K" "pos_on n p" "pos_on m q" "pos_on m b"
    and "lse_loop_r n m K p q sigma tol maxite a b e ite = (a', b', e', ite')"
  shows "pos_on m b' \<and> ite \<le> ite' \<and> \<not> (fgt e' (Fin tol) \<and> real ite' < maxite) \<and>
         ((a', b', e', ite') = (a, b, e, ite) \<or>
          (ite < ite' \<and> (\<exists>b0 a0. pos_on m b0 \<and> a' = Some (spec_a m K p b0) \<and>
              b' = spec_b n K q (spec_a m K p b0) \<and>
              e' = lse_err n sigma (spec_a m K p b0) a0)))"
  using assms
proof (induction n m K p q sigma tol maxite a b e ite rule: lse_loop_r.induct)
  case (1 n m K p q sigma tol maxite a b e ite)
  show ?case
  proof (cases "fgt e (Fin tol) \<and> real ite < maxite")
    case True
    let ?a = "spec_a m K p b"
    let ?b = "spec_b n K q ?a"
    let ?e = "lse_err n sigma ?a a"
    have b': "pos_on m ?b"
      using "1.prems" by (intro spec_b_pos spec_a_pos)
    have step: "lse_loop_r n m K p q sigma tol maxite (Some ?a) ?b ?e (Suc ite) = (a', b', e', ite')"
      using True "1.prems"(7) by (subst (asm) lse_loop_r.simps) simp
    have IH: "pos_on m b' \<and> Suc ite \<le> ite' \<and> \<not> (fgt e' (Fin tol) \<and> real ite' < maxite) \<and>
         ((a', b', e', ite') = (Some ?a, ?b, ?e, Suc ite) \<or>
          (Suc ite < ite' \<and> (\<exists>b0 a0. pos_on m b0 \<and> a' = Some (spec_a m K p b0) \<and>
              b' = spec_b n K q (spec_a m K p b0) \<and>
              e' = lse_err n sigma (spec_a m K p b0) a0)))"
      using True "1.prems"(1-5) b' step by (intro "1.IH") auto
    then show ?thesis
      using "1.prems"(6) by auto
  next
    case False
    then have "(a', b', e', ite') = (a, b, e, ite)"
      using "1.prems"(7) by (subst (asm) lse_loop_r.simps) (auto split: if_splits)
    then show ?thesis
      using False "1.prems"(6) by auto
  qed
qed

lemma pi_of_exact:
  assumes "sigma \<noteq> 0"
  shows "pi_of exact (fin2 n m phi) n sigma (fin1 n u) (fin1 m v)
       = Inr (fin2 n m (\<lambda>i j. exp ((phi i j - u i - v j) / sigma)))"
  using assms by (simp add: pi_of_def fin2_def fin1_def exp_over_def)

lemma exp_pot:
  assumes "sigma \<noteq> 0" "0 < a" "0 < b"
  shows "exp ((x - pot sigma (\<lambda>_. a) 0 - pot sigma (\<lambda>_. b) 0) / sigma) = exp (x / sigma) * a * b"
proof -
  have "(x - pot sigma (\<lambda>_. a) 0 - pot sigma (\<lambda>_. b) 0) / sigma = x / sigma + ln a + ln b"
    using assms(1) by (simp add: pot_def field_simps)
  then have "exp ((x - pot sigma (\<lambda>_. a) 0 - pot sigma (\<lambda>_. b) 0) / sigma)
           = exp (x / sigma) * exp (ln a) * exp (ln b)"
    by (simp only: exp_add)
  then show ?thesis
    using assms by simp
qed

lemma pi_of_pot:
  assumes "sigma \<noteq> 0" "pos_on n a" "pos_on m b"
  shows "pi_of exact (fin2 n m phi) n sigma (fin1 n (pot sigma a)) (fin1 m (pot sigma b))
       = Inr (fin2 n m (\<lambda>i j. kernel sigma phi i j * a i * b j))"
proof -
  have "fin2 n m (\<lambda>i j. exp ((phi i j - pot sigma a i - pot sigma b j) / sigma))
      = fin2 n m (\<lambda>i j. kernel sigma phi i j * a i * b j)"
    unfolding fin2_def
  proof (rule tab_cong)
    fix i j assume "i < n" "j < m"
    then have "0 < a i" "0 < b j"
      using assms by (auto simp: pos_on_def)
    from exp_pot[OF assms(1) this, of "phi i j"]
    show "Fin (exp ((phi i j - pot sigma a i - pot sigma b j) / sigma))
        = Fin (kernel sigma phi i j * a i * b j)"
      by (simp add: pot_def kernel_def)
  qed
  then show ?thesis
    by (simp add: pi_of_exact[OF assms(1)])
qed

lemma neg_sigma_log_exact:
  assumes "pos_on n p"
  shows "neg_sigma_log exact sigma (fin1 n p) = fin1 n (pot sigma p)"
  unfolding neg_sigma_log_def fin1_def map_vec
  by (rule vec_cong) (use assms in \<open>simp add: pos_on_def pot_def\<close>)

lemma zeros_pot: "replicate m (Fin 0) = fin1 m (pot sigma (\<lambda>j. 1))"
  by (simp add: replicate_vec fin1_def pot_def)

lemma lse_loop_r_first:
  assumes "0 < maxite"
  shows "lse_loop_r n m K p q sigma tol maxite None b (Fin (tol + 1)) 0
       = lse_loop_r n m K p q sigma tol maxite (Some (spec_a m K p b)) (spec_b n K q (spec_a m K p b))
           PInf (Suc 0)"
  using assms by (subst lse_loop_r.simps) (simp add: lse_err_def)

lemma lse_loop_r_second:
  assumes "2 \<le> maxite"
  shows "lse_loop_r n m K p q sigma tol maxite (Some a) b PInf (Suc 0)
       = lse_loop_r n m K p q sigma tol maxite (Some (spec_a m K p b)) (spec_b n K q (spec_a m K p b))
           (lse_err n sigma (spec_a m K p b) (Some a)) (Suc (Suc 0))"
  using assms by (subst lse_loop_r.simps) simp

lemma ipfp_lse_exact:
  assumes n: "0 < n" and m: "0 < m" and sigma: "sigma \<noteq> 0" and p: "pos_on n p" and q: "pos_on m q"
    and maxite: "0 < maxite"
    and fin: "lse_loop_r n m (kernel sigma phi) p q sigma tol maxite None (\<lambda>j. 1) (Fin (tol + 1)) 0
              = (a', b', e', ite')"
  shows "\<exists>a. a' = Some a \<and> pos_on n a \<and> pos_on m b' \<and>
           b' = spec_b n (kernel sigma phi) q a \<and>
           \<not> (fgt e' (Fin tol) \<and> real ite' < maxite) \<and> 1 \<le> ite' \<and> (2 \<le> maxite \<longrightarrow> 2 \<le> ite') \<and>
           ipfp_lse exact (fin2 n m phi) (fin1 n p) (fin1 m q) n m sigma tol maxite =
             Inr \<lparr>res_status = status_of ite' maxite, res_ite = ite',
                  res_u = fin1 n (pot sigma a), res_v = fin1 m (pot sigma b'),
                  res_pi = fin2 n m (\<lambda>i j. kernel sigma phi i j * a i * b' j),
                  res_val = Fin (obj_r n m sigma phi (\<lambda>i j. kernel sigma phi i j * a i * b' j))\<rparr>"
proof -
  let ?K = "kernel sigma phi"
  have one: "pos_on m (\<lambda>j. 1)" by (simp add: pos_on_def)
  have K: "pos_on2 n m ?K" by (rule kernel_pos)
  let ?a1 = "spec_a m ?K p (\<lambda>j. 1)"
  let ?b1 = "spec_b n ?K q ?a1"
  have a1: "pos_on n ?a1"
    using m K one p by (intro spec_a_pos)
  have b1: "pos_on m ?b1"
    using n K a1 q by (intro spec_b_pos)
  have fin1: "lse_loop_r n m ?K p q sigma tol maxite (Some ?a1) ?b1 PInf (Suc 0) = (a', b', e', ite')"
    using fin lse_loop_r_first[OF maxite] by simp
  from lse_loop_props[OF n m K p q b1 fin1]
  have props: "pos_on m b'" "\<not> (fgt e' (Fin tol) \<and> real ite' < maxite)" "Suc 0 \<le> ite'"
    and cases: "(a', b', e', ite') = (Some ?a1, ?b1, PInf, Suc 0) \<or>
      (\<exists>b0. pos_on m b0 \<and> a' = Some (spec_a m ?K p b0) \<and> b' = spec_b n ?K q (spec_a m ?K p b0))"
    by auto
  from cases one obtain b0 where b0: "pos_on m b0" "a' = Some (spec_a m ?K p b0)"
     "b' = spec_b n ?K q (spec_a m ?K p b0)"
    by auto
  let ?a = "spec_a m ?K p b0"
  have a: "pos_on n ?a"
    using m K b0(1) p by (intro spec_a_pos)
  have two: "2 \<le> ite'" if "2 \<le> maxite"
  proof -
    let ?a2 = "spec_a m ?K p ?b1"
    have b2: "pos_on m (spec_b n ?K q ?a2)"
      by (rule spec_b_pos[OF n K spec_a_pos[OF m K b1 p] q])
    have "lse_loop_r n m ?K p q sigma tol maxite (Some ?a2) (spec_b n ?K q ?a2)
            (lse_err n sigma ?a2 (Some ?a1)) (Suc (Suc 0)) = (a', b', e', ite')"
      using fin1 lse_loop_r_second[OF that] by simp
    from lse_loop_props[OF n m K p q b2 this] show ?thesis by simp
  qed
  have loop: "lse_loop exact (fin2 n m phi) (fin1 n (pot sigma p)) (fin1 m (pot sigma q)) n sigma tol maxite
                None (fin1 m (pot sigma (\<lambda>j. 1))) (Fin (tol + 1)) 0
            = Inr (Some (fin1 n (pot sigma ?a)), fin1 m (pot sigma b'), e', ite')"
    using lse_loop_refines[OF n m sigma p q one, of phi tol maxite None "Fin (tol + 1)" 0] fin b0
    by (simp add: lse_state_def)
  have P: "pos_on2 n m (\<lambda>i j. ?K i j * ?a i * b' j)"
    using K a props(1) by (auto simp: pos_on2_def pos_on_def)
  have "ipfp_lse exact (fin2 n m phi) (fin1 n p) (fin1 m q) n m sigma tol maxite =
             Inr \<lparr>res_status = status_of ite' maxite, res_ite = ite',
                  res_u = fin1 n (pot sigma ?a), res_v = fin1 m (pot sigma b'),
                  res_pi = fin2 n m (\<lambda>i j. ?K i j * ?a i * b' j),
                  res_val = Fin (obj_r n m sigma phi (\<lambda>i j. ?K i j * ?a i * b' j))\<rparr>"
    unfolding ipfp_lse_def
    by (simp add: neg_sigma_log_exact[OF p] neg_sigma_log_exact[OF q] zeros_pot[of m sigma] loop
        finish_def pi_of_pot[OF sigma a props(1)] objective_exact[OF P])
  then show ?thesis
    using b0 props a two by auto
qed

section \<open>Shapes: what the cells do with arrays of any entries\<close>

lemma max1_vec:
  "0 < m \<Longrightarrow> max1 (vec m f) = Inr (foldl fmax (f 0) (vec (m - 1) (\<lambda>j. f (Suc j))))"
proof -
  assume "0 < m"
  then obtain k where m: "m = Suc k" by (cases m) auto
  have "vec (Suc k) f = f 0 # vec k (\<lambda>j. f (Suc j))"
    by (simp add: vec_def upt_rec[of 0] map_Suc_upt[symmetric] del: upt_Suc)
  then show ?thesis
    unfolding m by simp
qed

lemma max_axis0_tab:
  "0 < r \<Longrightarrow> max_axis0 (tab r c f)
     = Inr (vec c (\<lambda>j. foldl fmax (f 0 j) (vec (r - 1) (\<lambda>i. f (Suc i) j))))"
  by (auto simp: max_axis0_def intro!: vec_cong arg_cong2[where f="foldl fmax"])

lemma ipfp1_body_shape:
  assumes "0 < m"
  shows "\<exists>a e b'. ipfp1_body R (tab n m K) (vec n p) (vec m q) (tab m 1 b)
           = Inr (tab n 1 a, e, tab m 1 b')"
  using assms
  by (simp add: ipfp1_body_def matmul_tab bc21_def bc12_def np_max_def max1_vec) blast

lemma lse_body_shape:
  assumes "0 < n" "0 < m" "uprec = None \<or> (\<exists>w. uprec = Some (vec n w))"
  shows "\<exists>u e v'. lse_body R (tab n m phi) (vec n mu) (vec m nu) n sigma (vec m v) uprec
           = Inr (vec n u, e, vec m v')"
  using assms(3)
proof
  assume "uprec = None"
  then show ?thesis
    using assms(1,2)
    by (simp add: lse_body_def lse_u_args_def lse_v_args_def max_axis0_tab sigma_log_def
        lse_error_def max1_vec) blast
next
  assume "\<exists>w. uprec = Some (vec n w)"
  then obtain w where "uprec = Some (vec n w)" by blast
  then show ?thesis
    using assms(1,2)
    by (simp add: lse_body_def lse_u_args_def lse_v_args_def max_axis0_tab sigma_log_def
        lse_error_def max1_vec) blast
qed

lemma measure_step: "real ite < maxite \<Longrightarrow> nat \<lceil>maxite\<rceil> - Suc ite < nat \<lceil>maxite\<rceil> - ite"
  by (auto simp: zless_nat_eq_int_zless less_ceiling_iff intro!: diff_less_mono2)

lemma ipfp1_loop_shape:
  assumes m: "0 < m"
  shows "\<exists>A' b' e' ite'.
           ipfp1_loop R (tab n m K) (vec n p) (vec m q) tol maxite A (tab m 1 b) e ite
             = Inr (A', tab m 1 b', e', ite')
           \<and> ite \<le> ite'
           \<and> (fgt e (Fin tol) \<and> real ite < maxite \<longrightarrow> ite < ite')
           \<and> (ite' = ite \<and> A' = A \<or> (\<exists>a. A' = Some (tab n 1 a)))"
proof (induction "nat \<lceil>maxite\<rceil> - ite" arbitrary: A b e ite rule: less_induct)
  case less
  show ?case
  proof (cases "fgt e (Fin tol) \<and> real ite < maxite")
    case True
    obtain a e1 b1 where body:
      "ipfp1_body R (tab n m K) (vec n p) (vec m q) (tab m 1 b) = Inr (tab n 1 a, e1, tab m 1 b1)"
      using ipfp1_body_shape[OF m] by blast
    have step: "ipfp1_loop R (tab n m K) (vec n p) (vec m q) tol maxite A (tab m 1 b) e ite
        = ipfp1_loop R (tab n m K) (vec n p) (vec m q) tol maxite (Some (tab n 1 a)) (tab m 1 b1) e1
            (Suc ite)"
      using True by (subst ipfp1_loop.simps) (simp add: body[unfolded One_nat_def])
    have "\<exists>A' b' e' ite'.
           ipfp1_loop R (tab n m K) (vec n p) (vec m q) tol maxite (Some (tab n 1 a)) (tab m 1 b1) e1
             (Suc ite) = Inr (A', tab m 1 b', e', ite')
           \<and> Suc ite \<le> ite'
           \<and> (fgt e1 (Fin tol) \<and> real (Suc ite) < maxite \<longrightarrow> Suc ite < ite')
           \<and> (ite' = Suc ite \<and> A' = Some (tab n 1 a) \<or> (\<exists>a. A' = Some (tab n 1 a)))"
      using True by (intro less measure_step) auto
    then obtain A' b' e' ite' where
      "ipfp1_loop R (tab n m K) (vec n p) (vec m q) tol maxite (Some (tab n 1 a)) (tab m 1 b1) e1
         (Suc ite) = Inr (A', tab m 1 b', e', ite')"
      "Suc ite \<le> ite'" "ite' = Suc ite \<and> A' = Some (tab n 1 a) \<or> (\<exists>a. A' = Some (tab n 1 a))"
      by blast
    then show ?thesis
      unfolding step by fastforce
  next
    case False
    then show ?thesis
      by (subst ipfp1_loop.simps) auto
  qed
qed

lemma ipfp1_loop_any_step:
  assumes m: "0 < m"
  shows "\<exists>a e1 b1.
           ipfp1_body R (tab n m K) (vec n p) (vec m q) (tab m 1 b) = Inr (tab n 1 a, e1, tab m 1 b1)
         \<and> ipfp1_loop R (tab n m K) (vec n p) (vec m q) tol maxite A (tab m 1 b) e ite
             = (if fgt e (Fin tol) \<and> real ite < maxite
                then ipfp1_loop R (tab n m K) (vec n p) (vec m q) tol maxite
                       (Some (tab n 1 a)) (tab m 1 b1) e1 (Suc ite)
                else Inr (A, tab m 1 b, e, ite))"
proof -
  obtain a e1 b1 where body:
    "ipfp1_body R (tab n m K) (vec n p) (vec m q) (tab m 1 b) = Inr (tab n 1 a, e1, tab m 1 b1)"
    using ipfp1_body_shape[OF m] by blast
  have "ipfp1_loop R (tab n m K) (vec n p) (vec m q) tol maxite A (tab m 1 b) e ite
             = (if fgt e (Fin tol) \<and> real ite < maxite
                then ipfp1_loop R (tab n m K) (vec n p) (vec m q) tol maxite
                       (Some (tab n 1 a)) (tab m 1 b1) e1 (Suc ite)
                else Inr (A, tab m 1 b, e, ite))"
    by (subst ipfp1_loop.simps) (simp add: body[unfolded One_nat_def])
  with body show ?thesis by blast
qed

lemma ipfp1_loop_nan:
  "ipfp1_loop R K p q tol maxite A B NaN ite = Inr (A, B, NaN, ite)"
  by (subst ipfp1_loop.simps) simp

lemma lse_loop_shape:
  assumes n: "0 < n" and m: "0 < m" and u: "u = None \<or> (\<exists>w. u = Some (vec n w))"
  shows "\<exists>u' v' e' ite'.
           lse_loop R (tab n m phi) (vec n mu) (vec m nu) n sigma tol maxite u (vec m v) e ite
             = Inr (u', vec m v', e', ite')
           \<and> ite \<le> ite'
           \<and> (fgt e (Fin tol) \<and> real ite < maxite \<longrightarrow> ite < ite')
           \<and> (ite' = ite \<and> u' = u \<or> (\<exists>w. u' = Some (vec n w)))"
  using u
proof (induction "nat \<lceil>maxite\<rceil> - ite" arbitrary: u v e ite rule: less_induct)
  case less
  show ?case
  proof (cases "fgt e (Fin tol) \<and> real ite < maxite")
    case True
    obtain u1 e1 v1 where body:
      "lse_body R (tab n m phi) (vec n mu) (vec m nu) n sigma (vec m v) u = Inr (vec n u1, e1, vec m v1)"
      using lse_body_shape[OF n m less.prems] by blast
    have step: "lse_loop R (tab n m phi) (vec n mu) (vec m nu) n sigma tol maxite u (vec m v) e ite
        = lse_loop R (tab n m phi) (vec n mu) (vec m nu) n sigma tol maxite (Some (vec n u1)) (vec m v1)
            e1 (Suc ite)"
      using True by (subst lse_loop.simps) (simp add: body)
    have "\<exists>u' v' e' ite'.
           lse_loop R (tab n m phi) (vec n mu) (vec m nu) n sigma tol maxite (Some (vec n u1)) (vec m v1)
             e1 (Suc ite) = Inr (u', vec m v', e', ite')
           \<and> Suc ite \<le> ite'
           \<and> (fgt e1 (Fin tol) \<and> real (Suc ite) < maxite \<longrightarrow> Suc ite < ite')
           \<and> (ite' = Suc ite \<and> u' = Some (vec n u1) \<or> (\<exists>w. u' = Some (vec n w)))"
      using True by (intro less(1) measure_step) auto
    then obtain u' v' e' ite' where
      "lse_loop R (tab n m phi) (vec n mu) (vec m nu) n sigma tol maxite (Some (vec n u1)) (vec m v1)
         e1 (Suc ite) = Inr (u', vec m v', e', ite')"
      "Suc ite \<le> ite'" "ite' = Suc ite \<and> u' = Some (vec n u1) \<or> (\<exists>w. u' = Some (vec n w))"
      by blast
    then show ?thesis
      unfolding step by fastforce
  next
    case False
    then show ?thesis
      by (subst lse_loop.simps) auto
  qed
qed

lemma objective_shape:
  "bdim r n = Some r \<Longrightarrow> \<exists>x. objective R sigma (tab n c phi) (tab r c P) = Inr x"
  by (auto simp: objective_def bc22_def bnd_def)

lemma ipfp_lse_shape_any:
  assumes n: "0 < n" and m: "0 < m" and maxite: "0 < maxite"
    and first: "fgt (fadd R (Fin tol) (Fin 1)) (Fin tol)"
  shows "\<exists>r. ipfp_lse R (tab n m phi) (vec n p) (vec m q) n m sigma tol maxite = Inr r
           \<and> 1 \<le> res_ite r"
proof -
  have "neg_sigma_log R sigma (vec n p) = vec n (\<lambda>i. fmul R (Fin (- sigma)) (flog R (p i)))"
    "neg_sigma_log R sigma (vec m q) = vec m (\<lambda>i. fmul R (Fin (- sigma)) (flog R (q i)))"
    "replicate m (Fin 0) = vec m (\<lambda>i. Fin 0)"
    by (simp_all add: neg_sigma_log_def replicate_vec)
  with lse_loop_shape[OF n m, of None R phi _ _ sigma tol maxite _ "fadd R (Fin tol) (Fin 1)" 0]
    maxite first
  obtain u' v' e' ite' where loop:
    "lse_loop R (tab n m phi) (neg_sigma_log R sigma (vec n p))
       (neg_sigma_log R sigma (vec m q)) n sigma tol maxite None (replicate m (Fin 0))
       (fadd R (Fin tol) (Fin 1)) 0 = Inr (u', vec m v', e', ite')"
    "0 < ite'" "\<exists>w. u' = Some (vec n w)"
    by fastforce
  then obtain w where w: "u' = Some (vec n w)" by blast
  obtain x where "objective R sigma (tab n m phi)
      (tab n m (\<lambda>i j. fexp R (fdiv R (fsub R (fsub R (phi i j) (w i)) (v' j)) (Fin sigma)))) = Inr x"
    using objective_shape[of n n R sigma m] by auto
  then show ?thesis
    using loop(1,2) w
    by (simp add: ipfp_lse_def finish_def pi_of_def exp_over_def)
qed

lemma ipfp_lse_shape:
  assumes n: "0 < n" and m: "0 < m" and maxite: "0 < maxite"
  shows "\<exists>r. ipfp_lse exact (tab n m phi) (vec n p) (vec m q) n m sigma tol maxite = Inr r
           \<and> 1 \<le> res_ite r"
  by (rule ipfp_lse_shape_any[OF assms]) simp

text \<open>
  When the first test of the loop fails (\<open>tol + 1\<close>, as computed, is not above \<open>tol\<close>, or
  the cap is not above zero), no iteration runs, and the first name the cell reads after the
  loop is not bound.
\<close>

lemma ipfp_lse_skipped:
  assumes "\<not> (fgt (fadd R (Fin tol) (Fin 1)) (Fin tol) \<and> 0 < maxite)"
  shows "lse_loop R Phi mu nu nbX sigma tol maxite None v0 (fadd R (Fin tol) (Fin 1)) 0
           = Inr (None, v0, fadd R (Fin tol) (Fin 1), 0)"
    and "ipfp_lse R Phi p q nbX nbY sigma tol maxite = Inl NameError"
proof -
  show 1: "lse_loop R Phi mu nu nbX sigma tol maxite None v0 (fadd R (Fin tol) (Fin 1)) 0
           = Inr (None, v0, fadd R (Fin tol) (Fin 1), 0)" for mu nu v0
    using assms by (subst lse_loop.simps) auto
  show "ipfp_lse R Phi p q nbX nbY sigma tol maxite = Inl NameError"
    unfolding ipfp_lse_def Let_def 1 by (simp add: finish_def)
qed

lemma ipfp_log_skipped:
  assumes "\<not> (fgt (fadd R (Fin tol) (Fin 1)) (Fin tol) \<and> 0 < maxite)"
  shows "ipfp_log R Phi p q nbX nbY sigma tol maxite = Inl NameError"
proof -
  have "log_loop R Phi mu nu q nbX sigma tol maxite None v0 (fadd R (Fin tol) (Fin 1)) 0
           = Inr (None, v0, fadd R (Fin tol) (Fin 1), 0)" for mu nu v0
    using assms by (subst log_loop.simps) auto
  then show ?thesis
    unfolding ipfp_log_def Let_def by (simp add: finish_def)
qed

lemma ipfp1_skipped:
  assumes "\<not> (fgt (fadd R (Fin tol) (Fin 1)) (Fin tol) \<and> 0 < maxite)"
  shows "ipfp1 R Phi p q nbY sigma tol maxite = Inl NameError"
proof -
  have "ipfp1_loop R K p q tol maxite None B0 (fadd R (Fin tol) (Fin 1)) 0
           = Inr (None, B0, fadd R (Fin tol) (Fin 1), 0)" for K B0
    using assms by (subst ipfp1_loop.simps) auto
  then show ?thesis
    unfolding ipfp1_def Let_def by simp
qed

lemma bidx_bound:
  assumes "bdim a b = Some r" "i < r"
  shows "bidx a i < a \<and> bidx b i < b"
  using assms by (auto simp: bdim_def bidx_def split: if_splits)

lemma bc22_tab:
  "bc22 g (tab r1 c1 f) (tab r2 c2 f') =
     (case bdim r1 r2 of
        None \<Rightarrow> Inl ValueError
      | Some r \<Rightarrow>
          (case bdim c1 c2 of
             None \<Rightarrow> Inl ValueError
           | Some c \<Rightarrow> Inr (tab r c (\<lambda>i j. g (f (bidx r1 i) (bidx c1 j))
                                             (f' (bidx r2 i) (bidx c2 j))))))"
  by (auto simp: bc22_def bidx_bound split: option.splits intro!: tab_cong)

lemma ipfp1_shape_any:
  assumes m: "0 < m" and maxite: "0 < maxite"
    and first: "fgt (fadd R (Fin tol) (Fin 1)) (Fin tol)"
  shows "(n = 1 \<or> n = 5 \<longrightarrow>
            (\<exists>r. ipfp1 R (tab n m phi) (vec n p) (vec m q) m sigma tol maxite = Inr r
               \<and> 1 \<le> res_ite r \<and> nrows (res_pi r) = 5 \<and> ncols (res_pi r) = m))
       \<and> (n \<noteq> 1 \<and> n \<noteq> 5 \<longrightarrow>
            ipfp1 R (tab n m phi) (vec n p) (vec m q) m sigma tol maxite = Inl ValueError)"
proof -
  let ?K = "\<lambda>i j. fexp R (fdiv R (phi i j) (Fin sigma))"
  have K: "exp_over R sigma (tab n m phi) = tab n m ?K"
    by (simp add: exp_over_def)
  from ipfp1_loop_shape[OF m, of R n ?K p q tol maxite None "\<lambda>j c. Fin 1" "fadd R (Fin tol) (Fin 1)" 0] maxite first
  obtain a b' e' ite' where loop:
    "ipfp1_loop R (tab n m ?K) (vec n p) (vec m q) tol maxite None (two_d (replicate m (Fin 1)))
       (fadd R (Fin tol) (Fin 1)) 0 = Inr (Some (tab n 1 a), tab m 1 b', e', ite')"
    "0 < ite'"
    by (fastforce simp: replicate_vec)
  let ?P = "\<lambda>i j. fmul R (fmul R (?K (bidx n i) j) (a (bidx n i) 0)) (b' j 0)"
  have pi': "bnd (bc22 (fmul R) (tab n m ?K) (tab n 1 a))
               (\<lambda>KA. bc22 (fmul R) KA (np_T (repeat_axis1 5 (tab m 1 b'))))
           = (if n = 1 \<or> n = 5 then Inr (tab 5 m ?P) else Inl ValueError)"
    by (auto simp: bc22_tab bdim_def bidx_def intro!: tab_cong)
  show ?thesis
  proof (intro conjI impI)
    assume n: "n = 1 \<or> n = 5"
    then have "bdim 5 n = Some 5" by (auto simp: bdim_def)
    from objective_shape[OF this, of R sigma m phi ?P]
    obtain x where "objective R sigma (tab n m phi) (tab 5 m ?P) = Inr x" by blast
    then show "\<exists>r. ipfp1 R (tab n m phi) (vec n p) (vec m q) m sigma tol maxite = Inr r
               \<and> 1 \<le> res_ite r \<and> nrows (res_pi r) = 5 \<and> ncols (res_pi r) = m"
      using n loop pi' by (auto simp: ipfp1_def K bnd_def split: sum.splits)
  next
    assume "n \<noteq> 1 \<and> n \<noteq> 5"
    then show "ipfp1 R (tab n m phi) (vec n p) (vec m q) m sigma tol maxite = Inl ValueError"
      using loop pi' by (auto simp: ipfp1_def K bnd_def split: sum.splits)
  qed
qed

lemma ipfp1_shape:
  assumes m: "0 < m" and maxite: "0 < maxite"
  shows "(n = 1 \<or> n = 5 \<longrightarrow>
            (\<exists>r. ipfp1 exact (tab n m phi) (vec n p) (vec m q) m sigma tol maxite = Inr r
               \<and> 1 \<le> res_ite r \<and> nrows (res_pi r) = 5 \<and> ncols (res_pi r) = m))
       \<and> (n \<noteq> 1 \<and> n \<noteq> 5 \<longrightarrow>
            ipfp1 exact (tab n m phi) (vec n p) (vec m q) m sigma tol maxite = Inl ValueError)"
  by (rule ipfp1_shape_any[OF assms]) simp

section \<open>The log-domain cell in exact arithmetic\<close>

lemma exp_pot1:
  assumes "sigma \<noteq> 0" "0 < a i"
  shows "exp ((x - pot sigma a i) / sigma) = exp (x / sigma) * a i"
proof -
  have "(x - pot sigma a i) / sigma = x / sigma + ln (a i)"
    using assms(1) by (simp add: pot_def field_simps)
  then have "exp ((x - pot sigma a i) / sigma) = exp (x / sigma) * exp (ln (a i))"
    by (simp only: exp_add)
  then show ?thesis
    using assms by simp
qed

lemma exp_neg_pot:
  assumes "sigma \<noteq> 0" "0 < b j"
  shows "exp (- (pot sigma b j / sigma)) = b j"
  using assms by (simp add: pot_def)

lemma spec_error_alt:
  "spec_error n m K q a b = Max ((\<lambda>j. \<bar>(\<Sum>i<n. K i j * a i) * b j / q j - 1\<bar>) ` {..<m})"
  by (simp add: spec_error_def mult.commute)

lemma log_body_exact:
  assumes n: "0 < n" and m: "0 < m" and sigma: "sigma \<noteq> 0"
    and p: "pos_on n p" and q: "pos_on m q" and b: "pos_on m b"
  shows "log_body exact (fin2 n m phi) (fin1 n (pot sigma p)) (fin1 m (pot sigma q)) (fin1 m q) n sigma
           (fin1 m (pot sigma b))
       = Inr (fin1 n (pot sigma (spec_a m (kernel sigma phi) p b)),
              Fin (spec_error n m (kernel sigma phi) q (spec_a m (kernel sigma phi) p b) b),
              fin1 m (pot sigma (spec_b n (kernel sigma phi) q (spec_a m (kernel sigma phi) p b))))"
proof -
  let ?K = "kernel sigma phi"
  let ?a = "spec_a m ?K p b"
  let ?v = "pot sigma b"
  let ?u = "pot sigma ?a"
  have a: "pos_on n ?a"
    using m kernel_pos b p by (intro spec_a_pos)
  have u: "vec n (\<lambda>i. fadd exact (Fin (pot sigma p i))
              (fmul exact (Fin sigma) (flog exact (Fin (\<Sum>j<m. exp ((phi i j - ?v j) / sigma))))))
         = fin1 n ?u"
    unfolding fin1_def
    by (rule vec_cong) (use lse_u_identity[OF sigma m b p, where M=0 and phi=phi] in \<open>simp add: exp_sum_pos[OF m]\<close>)
  have ka: "(\<Sum>i<n. exp ((phi i j - ?u i) / sigma)) = (\<Sum>i<n. ?K i j * ?a i)" for j
  proof (rule sum.cong[OF refl])
    fix i assume "i \<in> {..<n}"
    then have "0 < ?a i" using a by (simp add: pos_on_def)
    from exp_pot1[where a="?a" and i=i and x="phi i j", OF sigma this]
    show "exp ((phi i j - ?u i) / sigma) = ?K i j * ?a i"
      by (simp add: kernel_def)
  qed
  have v: "vec m (\<lambda>j. fadd exact (Fin (pot sigma q j))
              (fmul exact (Fin sigma) (flog exact (Fin (\<Sum>i<n. exp ((phi i j - ?u i) / sigma))))))
         = fin1 m (pot sigma (spec_b n ?K q ?a))"
    unfolding fin1_def
    by (rule vec_cong) (use lse_v_identity[OF sigma n a q, where M=0 and phi=phi] in \<open>simp add: exp_sum_pos[OF n]\<close>)
  have e: "vec m (\<lambda>j. fabs (fsub exact
              (fdiv exact (Fin ((\<Sum>i<n. exp ((phi i j - ?u i) / sigma)) * exp (- (?v j / sigma)))) (Fin (q j)))
              (Fin 1)))
         = vec m (\<lambda>j. Fin \<bar>(\<Sum>i<n. ?K i j * ?a i) * b j / q j - 1\<bar>)"
  proof (rule vec_cong)
    fix j assume j: "j < m"
    then have "0 < b j" "q j \<noteq> 0" using b q by (auto simp: pos_on_def)
    then show "fabs (fsub exact
              (fdiv exact (Fin ((\<Sum>i<n. exp ((phi i j - ?u i) / sigma)) * exp (- (?v j / sigma)))) (Fin (q j)))
              (Fin 1)) = Fin \<bar>(\<Sum>i<n. ?K i j * ?a i) * b j / q j - 1\<bar>"
      using exp_neg_pot[where b=b and j=j, OF sigma \<open>0 < b j\<close>] by (simp add: ka)
  qed
  show ?thesis
    unfolding log_body_def
    apply (simp add: fin1_def fin2_def exp_over_def sigma_log_def sigma u[unfolded fin1_def])
    apply (simp add: Let_def e max1_vec_Fin m v[unfolded fin1_def] spec_error_alt)
    done
qed

lemma log_loop_refines:
  assumes "0 < n" "0 < m" "sigma \<noteq> 0" "pos_on n p" "pos_on m q" "pos_on m b"
  shows "log_loop exact (fin2 n m phi) (fin1 n (pot sigma p)) (fin1 m (pot sigma q)) (fin1 m q) n sigma
           tol maxite (map_option (\<lambda>a. fin1 n (pot sigma a)) a) (fin1 m (pot sigma b)) (Fin e) ite
         = Inr (log_state n m sigma (lin_loop n m (kernel sigma phi) p q tol maxite a b e ite))"
proof -
  define K where "K = kernel sigma phi"
  have K: "pos_on2 n m K"
    unfolding K_def by (rule kernel_pos)
  have "pos_on m b \<Longrightarrow>
     log_loop exact (fin2 n m phi) (fin1 n (pot sigma p)) (fin1 m (pot sigma q)) (fin1 m q) n sigma
           tol maxite (map_option (\<lambda>a. fin1 n (pot sigma a)) a) (fin1 m (pot sigma b)) (Fin e) ite
         = Inr (log_state n m sigma (lin_loop n m K p q tol maxite a b e ite))"
    using assms(1-5) K K_def
  proof (induction n m K p q tol maxite a b e ite rule: lin_loop.induct)
    case (1 n m K p q tol maxite a b e ite)
    show ?case
    proof (cases "tol < e \<and> real ite < maxite")
      case True
      let ?a = "spec_a m K p b"
      let ?b = "spec_b n K q ?a"
      have b': "pos_on m ?b"
        using "1.prems" by (intro spec_b_pos spec_a_pos)
      have "log_loop exact (fin2 n m phi) (fin1 n (pot sigma p)) (fin1 m (pot sigma q)) (fin1 m q) n sigma
              tol maxite (map_option (\<lambda>a. fin1 n (pot sigma a)) a) (fin1 m (pot sigma b)) (Fin e) ite
          = log_loop exact (fin2 n m phi) (fin1 n (pot sigma p)) (fin1 m (pot sigma q)) (fin1 m q) n sigma
              tol maxite (map_option (\<lambda>a. fin1 n (pot sigma a)) (Some ?a)) (fin1 m (pot sigma ?b))
              (Fin (spec_error n m K q ?a b)) (Suc ite)"
        using True "1.prems"
        by (subst log_loop.simps) (simp add: log_body_exact)
      also have "\<dots> = Inr (log_state n m sigma (lin_loop n m K p q tol maxite (Some ?a) ?b
                   (spec_error n m K q ?a b) (Suc ite)))"
        using True "1.prems" b' by (intro "1.IH") auto
      also have "\<dots> = Inr (log_state n m sigma (lin_loop n m K p q tol maxite a b e ite))"
        using True by (subst (2) lin_loop.simps) simp
      finally show ?thesis .
    next
      case False
      then show ?thesis
        by (subst log_loop.simps, subst lin_loop.simps) (auto simp: log_state_def)
    qed
  qed
  then show ?thesis
    using assms(6) K_def by simp
qed

lemma ipfp_log_exact:
  assumes n: "0 < n" and m: "0 < m" and sigma: "sigma \<noteq> 0" and p: "pos_on n p" and q: "pos_on m q"
    and maxite: "0 < maxite"
    and fin: "lin_loop n m (kernel sigma phi) p q tol maxite None (\<lambda>j. 1) (tol + 1) 0 = (a', b', e', ite')"
  shows "\<exists>a. a' = Some a \<and>
           ipfp_log exact (fin2 n m phi) (fin1 n p) (fin1 m q) n m sigma tol maxite =
             Inr \<lparr>res_status = status_of ite' maxite, res_ite = ite',
                  res_u = fin1 n (\<lambda>i. - sigma * ln (a i)), res_v = fin1 m (\<lambda>j. - sigma * ln (b' j)),
                  res_pi = fin2 n m (\<lambda>i j. kernel sigma phi i j * a i * b' j),
                  res_val = Fin (obj_r n m sigma phi (\<lambda>i j. kernel sigma phi i j * a i * b' j))\<rparr>"
proof -
  let ?K = "kernel sigma phi"
  have one: "pos_on m (\<lambda>j. 1)" by (simp add: pos_on_def)
  have K: "pos_on2 n m ?K" by (rule kernel_pos)
  from ipfp1_loop_run[OF n m K p q maxite fin]
  obtain a where r: "a' = Some a" "pos_on n a" "pos_on m b'"
    by blast
  have loop: "log_loop exact (fin2 n m phi) (fin1 n (pot sigma p)) (fin1 m (pot sigma q)) (fin1 m q)
                n sigma tol maxite None (fin1 m (pot sigma (\<lambda>j. 1))) (Fin (tol + 1)) 0
            = Inr (Some (fin1 n (pot sigma a)), fin1 m (pot sigma b'), Fin e', ite')"
    using log_loop_refines[OF n m sigma p q one, of phi tol maxite None "tol + 1" 0] fin r(1)
    by (simp add: log_state_def)
  have P: "pos_on2 n m (\<lambda>i j. ?K i j * a i * b' j)"
    using K r(2,3) by (auto simp: pos_on2_def pos_on_def)
  have pots: "fin1 n (pot sigma a) = fin1 n (\<lambda>i. - sigma * ln (a i))"
    "fin1 m (pot sigma b') = fin1 m (\<lambda>j. - sigma * ln (b' j))"
    by (simp_all add: pot_def[abs_def])
  have "ipfp_log exact (fin2 n m phi) (fin1 n p) (fin1 m q) n m sigma tol maxite =
             Inr \<lparr>res_status = status_of ite' maxite, res_ite = ite',
                  res_u = fin1 n (pot sigma a), res_v = fin1 m (pot sigma b'),
                  res_pi = fin2 n m (\<lambda>i j. ?K i j * a i * b' j),
                  res_val = Fin (obj_r n m sigma phi (\<lambda>i j. ?K i j * a i * b' j))\<rparr>"
    unfolding ipfp_log_def
    by (simp add: neg_sigma_log_exact[OF p] neg_sigma_log_exact[OF q] zeros_pot[of m sigma] loop
        finish_def pi_of_pot[OF sigma r(2,3)] objective_exact[OF P])
  then show ?thesis
    using r(1) pots by simp
qed

section \<open>Marginals with zero entries\<close>

lemma all_close_fin1:
  "all_close tol (fin1 n f) (fin1 n g) = (\<forall>i<n. \<bar>f i - g i\<bar> \<le> tol)"
  by (simp add: all_close_def fin1_def list_all2_conv_all_nth)

lemma spec_error_nonneg:
  assumes "0 < m"
  shows "0 \<le> spec_error n m K q a b"
  using spec_error_bound[OF assms assms, where a=a and n=n and K=K and b=b and q=q] by linarith

lemma mass_on_sum:
  assumes "nonneg_on n p" "(\<Sum>i<n. p i) = 1"
  shows "mass_on n p"
proof -
  have "\<exists>i<n. 0 < p i"
  proof (rule ccontr)
    assume "\<not> (\<exists>i<n. 0 < p i)"
    then have "p i = 0" if "i < n" for i
      using assms(1) that by (force simp: nonneg_on_def)
    then have "(\<Sum>i<n. p i) = 0" by simp
    with assms(2) show False by simp
  qed
  with assms(1) show ?thesis by (simp add: mass_on_def)
qed

lemma spec_a_mass:
  assumes "0 < m" "pos_on2 n m K" "pos_on m b" "mass_on n p"
  shows "mass_on n (spec_a m K p b)"
proof -
  have kb: "0 < (\<Sum>j<m. K i j * b j)" if "i < n" for i
    using kb_pos[OF assms(1-3) that] .
  have "0 \<le> spec_a m K p b i" if "i < n" for i
    using assms(4) kb[OF that] that by (auto simp: mass_on_def nonneg_on_def spec_a_def)
  moreover obtain i where "i < n" "0 < p i"
    using assms(4) by (auto simp: mass_on_def)
  then have "i < n \<and> 0 < spec_a m K p b i"
    using kb[of i] by (simp add: spec_a_def)
  ultimately show ?thesis
    by (auto simp: mass_on_def nonneg_on_def)
qed

lemma ka_pos_mass:
  assumes "pos_on2 n m K" "mass_on n a" "j < m"
  shows "0 < (\<Sum>i<n. K i j * a i)"
proof -
  obtain i where i: "i < n" "0 < a i"
    using assms(2) by (auto simp: mass_on_def)
  have "0 < K i j * a i"
    using assms(1,3) i by (simp add: pos_on2_def)
  moreover have "0 \<le> K k j * a k" if "k < n" for k
  proof -
    have "0 < K k j" "0 \<le> a k"
      using assms that by (auto simp: pos_on2_def mass_on_def nonneg_on_def)
    then show ?thesis by simp
  qed
  ultimately show ?thesis
    using i(1) by (intro sum_pos2[where i=i]) auto
qed

lemma spec_b_pos_mass:
  assumes "pos_on2 n m K" "mass_on n a" "pos_on m q"
  shows "pos_on m (spec_b n K q a)"
  using assms ka_pos_mass[OF assms(1,2)] by (auto simp: pos_on_def spec_b_def)

lemma ipfp1_body_mass:
  assumes "0 < m" "pos_on2 n m K" "mass_on n p" "pos_on m q" "pos_on m b"
  shows "ipfp1_body exact (fin2 n m K) (fin1 n p) (fin1 m q) (col m b)
         = Inr (col n (spec_a m K p b), Fin (spec_error n m K q (spec_a m K p b) b),
                col m (spec_b n K q (spec_a m K p b)))"
proof -
  have a: "mass_on n (spec_a m K p b)"
    using assms by (intro spec_a_mass)
  have 1: "\<And>i. i < n \<Longrightarrow> (\<Sum>j<m. K i j * b j) \<noteq> 0"
    using kb_pos[of m n K b] assms by fastforce
  have 2: "\<And>j. j < m \<Longrightarrow> q j \<noteq> 0"
    using assms by (fastforce simp: pos_on_def)
  have 3: "\<And>j. j < m \<Longrightarrow> (\<Sum>i<n. K i j * spec_a m K p b i) \<noteq> 0"
    using ka_pos_mass[of n m K "spec_a m K p b"] assms a by fastforce
  show ?thesis
    unfolding fin2_def fin1_def col_def
    by (rule ipfp1_body_exact) (use assms 1 2 3 in auto)
qed

lemma ipfp1_loop_refines_mass:
  assumes "0 < m" "pos_on2 n m K" "mass_on n p" "pos_on m q" "pos_on m b"
  shows "ipfp1_loop exact (fin2 n m K) (fin1 n p) (fin1 m q) tol maxite
           (map_option (col n) a) (col m b) (Fin e) ite
         = Inr (lin_state n m (lin_loop n m K p q tol maxite a b e ite))"
  using assms
proof (induction n m K p q tol maxite a b e ite rule: lin_loop.induct)
  case (1 n m K p q tol maxite a b e ite)
  show ?case
  proof (cases "tol < e \<and> real ite < maxite")
    case True
    have b': "pos_on m (spec_b n K q (spec_a m K p b))"
      using "1.prems" by (intro spec_b_pos_mass spec_a_mass)
    have "ipfp1_loop exact (fin2 n m K) (fin1 n p) (fin1 m q) tol maxite
            (map_option (col n) a) (col m b) (Fin e) ite
          = ipfp1_loop exact (fin2 n m K) (fin1 n p) (fin1 m q) tol maxite
              (map_option (col n) (Some (spec_a m K p b))) (col m (spec_b n K q (spec_a m K p b)))
              (Fin (spec_error n m K q (spec_a m K p b) b)) (Suc ite)"
      using True "1.prems"
      by (subst ipfp1_loop.simps) (simp add: ipfp1_body_mass)
    also have "\<dots> = Inr (lin_state n m (lin_loop n m K p q tol maxite (Some (spec_a m K p b))
                 (spec_b n K q (spec_a m K p b)) (spec_error n m K q (spec_a m K p b) b) (Suc ite)))"
      using True "1.prems" b' by (intro "1.IH") auto
    also have "\<dots> = Inr (lin_state n m (lin_loop n m K p q tol maxite a b e ite))"
      using True by (subst (2) lin_loop.simps) simp
    finally show ?thesis .
  next
    case False
    then show ?thesis
      by (subst ipfp1_loop.simps, subst lin_loop.simps) (auto simp: lin_state_def)
  qed
qed

lemma lin_loop_props_mass:
  assumes "0 < m" "pos_on2 n m K" "mass_on n p" "pos_on m q" "pos_on m b"
    and "lin_loop n m K p q tol maxite a b e ite = (a', b', e', ite')"
  shows "pos_on m b' \<and> ite \<le> ite' \<and> \<not> (tol < e' \<and> real ite' < maxite) \<and>
         ((a', b', e', ite') = (a, b, e, ite) \<or>
          (ite < ite' \<and> (\<exists>b0. pos_on m b0 \<and> a' = Some (spec_a m K p b0) \<and>
              b' = spec_b n K q (spec_a m K p b0) \<and>
              e' = spec_error n m K q (spec_a m K p b0) b0)))"
  using assms
proof (induction n m K p q tol maxite a b e ite rule: lin_loop.induct)
  case (1 n m K p q tol maxite a b e ite)
  show ?case
  proof (cases "tol < e \<and> real ite < maxite")
    case True
    let ?a = "spec_a m K p b"
    let ?b = "spec_b n K q ?a"
    let ?e = "spec_error n m K q ?a b"
    have b': "pos_on m ?b"
      using "1.prems" by (intro spec_b_pos_mass spec_a_mass)
    have step: "lin_loop n m K p q tol maxite (Some ?a) ?b ?e (Suc ite) = (a', b', e', ite')"
      using True "1.prems"(6) by (subst (asm) lin_loop.simps) simp
    have IH: "pos_on m b' \<and> Suc ite \<le> ite' \<and> \<not> (tol < e' \<and> real ite' < maxite) \<and>
         ((a', b', e', ite') = (Some ?a, ?b, ?e, Suc ite) \<or>
          (Suc ite < ite' \<and> (\<exists>b0. pos_on m b0 \<and> a' = Some (spec_a m K p b0) \<and>
              b' = spec_b n K q (spec_a m K p b0) \<and>
              e' = spec_error n m K q (spec_a m K p b0) b0)))"
      using True "1.prems"(1-4) b' step by (intro "1.IH") auto
    then show ?thesis
      using "1.prems"(5) by auto
  next
    case False
    then have "(a', b', e', ite') = (a, b, e, ite)"
      using "1.prems"(6) by (subst (asm) lin_loop.simps) (auto split: if_splits)
    then show ?thesis
      using False "1.prems"(5) by auto
  qed
qed

lemma col_sum_exact_mass:
  assumes "pos_on2 n m K" "mass_on n a" "j < m"
  shows "(\<Sum>i<n. K i j * a i * spec_b n K q a j) = q j"
proof -
  have "(\<Sum>i<n. K i j * a i) \<noteq> 0"
    using ka_pos_mass[OF assms] by simp
  moreover have "(\<Sum>i<n. K i j * a i * spec_b n K q a j) = (\<Sum>i<n. K i j * a i) * spec_b n K q a j"
    by (simp add: sum_distrib_right)
  ultimately show ?thesis
    by (simp add: spec_b_def)
qed

lemma total_mass_mass:
  assumes "pos_on2 n m K" "mass_on n a"
  shows "(\<Sum>i<n. \<Sum>j<m. K i j * a i * spec_b n K q a j) = (\<Sum>j<m. q j)"
proof -
  have "(\<Sum>i<n. \<Sum>j<m. K i j * a i * spec_b n K q a j)
      = (\<Sum>j<m. \<Sum>i<n. K i j * a i * spec_b n K q a j)"
    by (rule sum.swap)
  also have "\<dots> = (\<Sum>j<m. q j)"
    by (intro sum.cong refl) (use col_sum_exact_mass[OF assms] in auto)
  finally show ?thesis .
qed

lemma row_sum_lower_mass:
  assumes m: "0 < m" and K: "pos_on2 n m K" and p: "mass_on n p" and q: "pos_on m q"
    and b: "pos_on m b" and tol: "0 \<le> tol"
    and e: "spec_error n m K q (spec_a m K p b) b \<le> tol" and i: "i < n"
  shows "p i - tol * p i \<le> (\<Sum>j<m. K i j * spec_a m K p b i * spec_b n K q (spec_a m K p b) j)"
proof -
  let ?a = "spec_a m K p b"
  let ?b = "spec_b n K q ?a"
  have a: "mass_on n ?a"
    using m K b p by (intro spec_a_mass)
  have Ka: "0 \<le> K i j * ?a i" if "j < m" for j
  proof -
    have "0 < K i j" "0 \<le> ?a i"
      using K a i that by (auto simp: pos_on2_def mass_on_def nonneg_on_def)
    then show ?thesis by simp
  qed
  have tm: "K i j * ?a i * b j \<le> (1 + tol) * (K i j * ?a i * ?b j)" if j: "j < m" for j
  proof -
    let ?s = "\<Sum>i<n. K i j * ?a i"
    have s: "0 < ?s" using ka_pos_mass[OF K a j] .
    have qj: "0 < q j" using q j by (simp add: pos_on_def)
    have "\<bar>(\<Sum>i<n. ?a i * K i j) * b j / q j - 1\<bar> \<le> tol"
      using spec_error_bound[OF m j, where n=n and a="?a" and K=K and b=b and q=q] e by linarith
    then have "?s * b j / q j \<le> 1 + tol"
      by (simp add: mult.commute abs_le_iff)
    then have "?s * b j \<le> (1 + tol) * q j"
      using qj by (simp add: pos_divide_le_eq)
    then have "b j \<le> (1 + tol) * q j / ?s"
      using s by (simp add: pos_le_divide_eq mult.commute)
    then have bj: "b j \<le> (1 + tol) * ?b j"
      by (simp add: spec_b_def)
    have "K i j * ?a i * b j \<le> K i j * ?a i * ((1 + tol) * ?b j)"
      using bj Ka[OF j] by (intro mult_left_mono)
    then show ?thesis by (simp add: mult_ac)
  qed
  have "p i = (\<Sum>j<m. K i j * ?a i * b j)"
    using row_sum_old[OF m K b i, of p] by simp
  also have "\<dots> \<le> (\<Sum>j<m. (1 + tol) * (K i j * ?a i * ?b j))"
    by (intro sum_mono) (use tm in auto)
  also have "\<dots> = (1 + tol) * (\<Sum>j<m. K i j * ?a i * ?b j)"
    by (simp add: sum_distrib_left)
  finally have 1: "p i \<le> (1 + tol) * (\<Sum>j<m. K i j * ?a i * ?b j)" .
  let ?S = "\<Sum>j<m. K i j * ?a i * ?b j"
  have bp: "pos_on m ?b" by (rule spec_b_pos_mass[OF K a q])
  have "0 \<le> ?S"
  proof (rule sum_nonneg)
    fix j assume "j \<in> {..<m}"
    then have j: "j < m" by simp
    have "0 \<le> ?b j" using bp j by (simp add: pos_on_def less_imp_le)
    with Ka[OF j] show "0 \<le> K i j * ?a i * ?b j" by simp
  qed
  have pi: "0 \<le> p i" using p i by (simp add: mass_on_def nonneg_on_def)
  have "(1 - tol) * ((1 + tol) * ?S) = ?S - tol * tol * ?S"
    by (simp add: algebra_simps)
  moreover have "0 \<le> tol * tol * ?S"
    using \<open>0 \<le> ?S\<close> tol by (intro mult_nonneg_nonneg) auto
  moreover have "(1 - tol) * p i \<le> (1 - tol) * ((1 + tol) * ?S)" if "tol \<le> 1"
    using 1 that by (intro mult_left_mono) auto
  moreover have "(1 - tol) * p i \<le> 0" if "\<not> tol \<le> 1"
    using that pi by (simp add: mult_le_0_iff)
  ultimately have "(1 - tol) * p i \<le> ?S"
    using \<open>0 \<le> ?S\<close> by (cases "tol \<le> 1") linarith+
  then show ?thesis by (simp add: algebra_simps)
qed

lemma row_sum_close_mass:
  assumes m: "0 < m" and K: "pos_on2 n m K" and p: "mass_on n p" and q: "pos_on m q"
    and b: "pos_on m b" and tol: "0 \<le> tol"
    and e: "spec_error n m K q (spec_a m K p b) b \<le> tol" and i: "i < n"
    and p1: "(\<Sum>i<n. p i) = 1" and q1: "(\<Sum>j<m. q j) = 1"
  shows "\<bar>(\<Sum>j<m. K i j * spec_a m K p b i * spec_b n K q (spec_a m K p b) j) - p i\<bar> \<le> tol"
proof -
  let ?a = "spec_a m K p b"
  let ?b = "spec_b n K q ?a"
  let ?s = "\<lambda>i. \<Sum>j<m. K i j * ?a i * ?b j"
  have a: "mass_on n ?a"
    using m K b p by (intro spec_a_mass)
  have low: "p k - ?s k \<le> tol * p k" if "k < n" for k
    using row_sum_lower_mass[OF m K p q b tol e that] by linarith
  have pk: "0 \<le> p k" if "k < n" for k
    using p that by (simp add: mass_on_def nonneg_on_def)
  have "p i \<le> (\<Sum>i<n. p i)"
    by (rule member_le_sum) (use i pk in auto)
  then have pi1: "p i \<le> 1" using p1 by simp
  have "tol * p i \<le> tol * 1"
    using pi1 tol by (intro mult_left_mono)
  then have lower: "p i - ?s i \<le> tol"
    using low[OF i] by linarith
  have "(\<Sum>k<n. ?s k) = 1"
    using total_mass_mass[OF K a, of q] q1 by simp
  then have zero: "(\<Sum>k<n. p k - ?s k) = 0"
    using p1 by (simp add: sum_subtractf)
  have "(\<Sum>k<n. p k - ?s k) = (p i - ?s i) + (\<Sum>k\<in>{..<n} - {i}. p k - ?s k)"
    by (rule sum.remove) (use i in auto)
  then have "?s i - p i = (\<Sum>k\<in>{..<n} - {i}. p k - ?s k)"
    using zero by linarith
  also have "\<dots> \<le> (\<Sum>k\<in>{..<n} - {i}. tol * p k)"
    by (intro sum_mono) (use low in auto)
  also have "\<dots> \<le> (\<Sum>k<n. tol * p k)"
    by (intro sum_mono2) (use tol pk in \<open>auto intro!: mult_nonneg_nonneg\<close>)
  also have "\<dots> = tol"
    using p1 by (simp add: sum_distrib_left[symmetric])
  finally have upper: "?s i - p i \<le> tol" .
  show ?thesis
    using lower upper by (simp add: abs_le_iff)
qed

lemma ipfp1_loop_run_mass:
  assumes m: "0 < m" and K: "pos_on2 n m K" and p: "mass_on n p" and q: "pos_on m q"
    and maxite: "0 < maxite"
    and fin: "lin_loop n m K p q tol maxite None (\<lambda>j. 1) (tol + 1) 0 = (a', b', e', ite')"
  shows "\<exists>a b0. a' = Some a \<and> pos_on m b0 \<and> a = spec_a m K p b0 \<and> mass_on n a \<and> pos_on m b' \<and>
           b' = spec_b n K q a \<and> e' = spec_error n m K q a b0 \<and> 1 \<le> ite' \<and>
           \<not> (tol < e' \<and> real ite' < maxite) \<and>
           ipfp1_loop exact (fin2 n m K) (fin1 n p) (fin1 m q) tol maxite None
             (two_d (replicate m (Fin 1))) (fadd exact (Fin tol) (Fin 1)) 0
           = Inr (Some (col n a), col m b', Fin e', ite')"
proof -
  have one: "pos_on m (\<lambda>j. 1)" by (simp add: pos_on_def)
  let ?a1 = "spec_a m K p (\<lambda>j. 1)"
  have b1: "pos_on m (spec_b n K q ?a1)"
    by (rule spec_b_pos_mass[OF K spec_a_mass[OF m K one p] q])
  have fin': "lin_loop n m K p q tol maxite (Some ?a1) (spec_b n K q ?a1)
          (spec_error n m K q ?a1 (\<lambda>j. 1)) (Suc 0) = (a', b', e', ite')"
    using fin lin_loop_first[OF maxite] by simp
  from lin_loop_props_mass[OF m K p q b1 fin']
  have props: "pos_on m b'" "\<not> (tol < e' \<and> real ite' < maxite)" "Suc 0 \<le> ite'"
    and cases: "(a', b', e', ite') = (Some ?a1, spec_b n K q ?a1, spec_error n m K q ?a1 (\<lambda>j. 1), Suc 0) \<or>
      (\<exists>b0. pos_on m b0 \<and> a' = Some (spec_a m K p b0) \<and>
              b' = spec_b n K q (spec_a m K p b0) \<and>
              e' = spec_error n m K q (spec_a m K p b0) b0)"
    by auto
  from cases one obtain b0 where b0: "pos_on m b0" "a' = Some (spec_a m K p b0)"
     "b' = spec_b n K q (spec_a m K p b0)" "e' = spec_error n m K q (spec_a m K p b0) b0"
    by auto
  have a: "mass_on n (spec_a m K p b0)"
    by (rule spec_a_mass[OF m K b0(1) p])
  have B0: "two_d (replicate m (Fin 1)) = col m (\<lambda>j. 1)"
    by (simp add: replicate_vec col_def)
  have "ipfp1_loop exact (fin2 n m K) (fin1 n p) (fin1 m q) tol maxite None
          (two_d (replicate m (Fin 1))) (fadd exact (Fin tol) (Fin 1)) 0
        = Inr (Some (col n (spec_a m K p b0)), col m b', Fin e', ite')"
    using ipfp1_loop_refines_mass[OF m K p q one, of tol maxite None "tol + 1" 0] fin b0
    by (simp add: lin_state_def B0)
  then show ?thesis
    using b0 props a by auto
qed

lemma ipfp1_mass:
  assumes m: "0 < m" and sigma: "sigma \<noteq> 0" and p: "mass_on 5 p" and q: "pos_on m q"
    and maxite: "0 < maxite"
    and fin: "lin_loop 5 m (kernel sigma phi) p q tol maxite None (\<lambda>j. 1) (tol + 1) 0 = (a', b', e', ite')"
  shows "\<exists>a r. a' = Some a \<and>
           ipfp1 exact (fin2 5 m phi) (fin1 5 p) (fin1 m q) m sigma tol maxite = Inr r \<and>
           res_status r = status_of ite' maxite \<and> res_ite r = ite' \<and>
           res_pi r = fin2 5 m (\<lambda>i j. kernel sigma phi i j * a i * b' j)"
proof -
  let ?K = "kernel sigma phi"
  have K: "pos_on2 5 m ?K" by (rule kernel_pos)
  from ipfp1_loop_run_mass[OF m K p q maxite fin]
  obtain a where r: "a' = Some a"
    and loop: "ipfp1_loop exact (fin2 5 m ?K) (fin1 5 p) (fin1 m q) tol maxite None
             (two_d (replicate m (Fin 1))) (fadd exact (Fin tol) (Fin 1)) 0
           = Inr (Some (col 5 a), col m b', Fin e', ite')"
    by blast
  have loop': "ipfp1_loop exact (fin2 5 m ?K) (fin1 5 p) (fin1 m q) tol maxite None
             (two_d (replicate m (Fin 1))) (Fin (tol + 1)) 0
           = Inr (Some (col 5 a), col m b', Fin e', ite')"
    using loop by simp
  have KA: "bc22 (fmul exact) (fin2 5 m ?K) (col 5 a) = Inr (fin2 5 m (\<lambda>i j. ?K i j * a i))"
    by (simp add: fin2_def col_def)
  have pi': "bc22 (fmul exact) (fin2 5 m (\<lambda>i j. ?K i j * a i)) (np_T (repeat_axis1 5 (col m b')))
           = Inr (fin2 5 m (\<lambda>i j. ?K i j * a i * b' j))"
    by (simp add: fin2_def col_def)
  obtain x where x: "objective exact sigma (fin2 5 m phi) (fin2 5 m (\<lambda>i j. ?K i j * a i * b' j)) = Inr x"
    using objective_shape[of 5 5 exact sigma m] by (auto simp: fin2_def)
  have "ipfp1 exact (fin2 5 m phi) (fin1 5 p) (fin1 m q) m sigma tol maxite =
             Inr \<lparr>res_status = status_of ite' maxite, res_ite = ite',
                  res_u = map2d (\<lambda>x. fmul exact (Fin (- sigma)) (flog exact x)) (col 5 a),
                  res_v = map2d (\<lambda>x. fmul exact (Fin (- sigma)) (flog exact x)) (col m b'),
                  res_pi = fin2 5 m (\<lambda>i j. ?K i j * a i * b' j),
                  res_val = x\<rparr>"
    unfolding ipfp1_def
    by (simp add: exp_over_fin2[OF sigma] loop' KA pi' x)
  then show ?thesis
    using r by auto
qed

lemma neg_sigma_log_mass:
  assumes "0 < sigma" "nonneg_on n p"
  shows "neg_sigma_log exact sigma (fin1 n p) = vec n (potx sigma p)"
  unfolding neg_sigma_log_def fin1_def map_vec
proof (rule vec_cong)
  fix i assume "i < n"
  then have "0 \<le> p i" using assms(2) by (simp add: nonneg_on_def)
  then show "fmul exact (Fin (- sigma)) (flog exact (Fin (p i))) = potx sigma p i"
    using assms(1) by (cases "p i = 0") (simp_all add: potx_def pot_def flog.simps)
qed

lemma log_body_mass:
  assumes m: "0 < m" and sigma: "0 < sigma"
    and p: "mass_on n p" and q: "pos_on m q" and b: "pos_on m b"
  shows "log_body exact (fin2 n m phi) (vec n (potx sigma p)) (fin1 m (pot sigma q)) (fin1 m q) n sigma
           (fin1 m (pot sigma b))
       = Inr (vec n (potx sigma (spec_a m (kernel sigma phi) p b)),
              Fin (spec_error n m (kernel sigma phi) q (spec_a m (kernel sigma phi) p b) b),
              fin1 m (pot sigma (spec_b n (kernel sigma phi) q (spec_a m (kernel sigma phi) p b))))"
proof -
  let ?K = "kernel sigma phi"
  let ?a = "spec_a m ?K p b"
  let ?v = "pot sigma b"
  let ?u = "potx sigma ?a"
  have s0: "sigma \<noteq> 0" using sigma by simp
  have a: "mass_on n ?a"
    using m kernel_pos b p by (intro spec_a_mass)
  have kb: "0 < (\<Sum>j<m. ?K i j * b j)" if "i < n" for i
    using kb_pos[OF m kernel_pos b that] .
  have u: "vec n (\<lambda>i. fadd exact (potx sigma p i)
              (fmul exact (Fin sigma) (flog exact (Fin (\<Sum>j<m. exp ((phi i j - ?v j) / sigma))))))
         = vec n ?u"
  proof (rule vec_cong)
    fix i assume i: "i < n"
    have pi: "0 \<le> p i" using p i by (simp add: mass_on_def nonneg_on_def)
    show "fadd exact (potx sigma p i)
              (fmul exact (Fin sigma) (flog exact (Fin (\<Sum>j<m. exp ((phi i j - ?v j) / sigma)))))
          = ?u i"
    proof (cases "p i = 0")
      case True
      then have "?a i = 0" by (simp add: spec_a_def)
      with True show ?thesis
        by (simp add: potx_def exp_sum_pos[OF m])
    next
      case False
      then have pp: "0 < p i" using pi by simp
      then have "?a i \<noteq> 0" using kb[OF i] by (simp add: spec_a_def)
      moreover have "pot sigma p i + sigma * ln (\<Sum>j<m. exp ((phi i j - ?v j) / sigma)) = pot sigma ?a i"
        using lse_identity[OF s0 m, of b "p i" 0 "phi i"] b pp
        by (simp add: pot_def spec_a_def kernel_def pos_on_def)
      ultimately show ?thesis
        using False by (simp add: potx_def exp_sum_pos[OF m])
    qed
  qed
  have ent: "fexp exact (fdiv exact (fsub exact (Fin (phi i j)) (?u i)) (Fin sigma)) = Fin (?K i j * ?a i)"
    if "i < n" for i j
  proof (cases "?a i = 0")
    case True
    then show ?thesis using sigma by (simp add: potx_def fsub_def)
  next
    case False
    then have "0 < ?a i" using a that by (auto simp: mass_on_def nonneg_on_def less_le)
    from exp_pot1[where a="?a" and i=i and x="phi i j", OF s0 this] False
    show ?thesis using s0 by (simp add: potx_def fsub_def kernel_def)
  qed
  have E: "vec n (\<lambda>i. fexp exact (fdiv exact (fsub exact (Fin (phi i j)) (?u i)) (Fin sigma)))
         = vec n (\<lambda>i. Fin (?K i j * ?a i))" for j
    by (rule vec_cong) (rule ent)
  have v: "vec m (\<lambda>j. fadd exact (Fin (pot sigma q j))
              (fmul exact (Fin sigma) (flog exact (Fin (\<Sum>i<n. ?K i j * ?a i)))))
         = fin1 m (pot sigma (spec_b n ?K q ?a))"
    unfolding fin1_def
  proof (rule vec_cong)
    fix j assume j: "j < m"
    have s: "0 < (\<Sum>i<n. ?K i j * ?a i)" by (rule ka_pos_mass[OF kernel_pos a j])
    have qj: "0 < q j" using q j by (simp add: pos_on_def)
    have "pot sigma q j + sigma * ln (\<Sum>i<n. ?K i j * ?a i) = pot sigma (spec_b n ?K q ?a) j"
      using s qj by (simp add: pot_def spec_b_def ln_div algebra_simps)
    then show "fadd exact (Fin (pot sigma q j))
              (fmul exact (Fin sigma) (flog exact (Fin (\<Sum>i<n. ?K i j * ?a i))))
          = Fin (pot sigma (spec_b n ?K q ?a) j)"
      using s by simp
  qed
  have e: "vec m (\<lambda>j. fabs (fsub exact
              (fdiv exact (Fin ((\<Sum>i<n. ?K i j * ?a i) * exp (- (?v j / sigma)))) (Fin (q j)))
              (Fin 1)))
         = vec m (\<lambda>j. Fin \<bar>(\<Sum>i<n. ?K i j * ?a i) * b j / q j - 1\<bar>)"
  proof (rule vec_cong)
    fix j assume j: "j < m"
    then have "0 < b j" "q j \<noteq> 0" using b q by (auto simp: pos_on_def)
    then show "fabs (fsub exact
              (fdiv exact (Fin ((\<Sum>i<n. ?K i j * ?a i) * exp (- (?v j / sigma)))) (Fin (q j)))
              (Fin 1)) = Fin \<bar>(\<Sum>i<n. ?K i j * ?a i) * b j / q j - 1\<bar>"
      using exp_neg_pot[where b=b and j=j, OF s0 \<open>0 < b j\<close>] by simp
  qed
  show ?thesis
    unfolding log_body_def
    apply (simp add: fin1_def fin2_def exp_over_def sigma_log_def s0 u)
    apply (simp add: Let_def E e max1_vec_Fin m v[unfolded fin1_def] spec_error_alt)
    done
qed

lemma log_loop_refines_mass:
  assumes "0 < m" "0 < sigma" "mass_on n p" "pos_on m q" "pos_on m b"
  shows "log_loop exact (fin2 n m phi) (vec n (potx sigma p)) (fin1 m (pot sigma q)) (fin1 m q) n sigma
           tol maxite (map_option (\<lambda>a. vec n (potx sigma a)) a) (fin1 m (pot sigma b)) (Fin e) ite
         = Inr (log_state_x n m sigma (lin_loop n m (kernel sigma phi) p q tol maxite a b e ite))"
proof -
  define K where "K = kernel sigma phi"
  have K: "pos_on2 n m K"
    unfolding K_def by (rule kernel_pos)
  have "pos_on m b \<Longrightarrow>
     log_loop exact (fin2 n m phi) (vec n (potx sigma p)) (fin1 m (pot sigma q)) (fin1 m q) n sigma
           tol maxite (map_option (\<lambda>a. vec n (potx sigma a)) a) (fin1 m (pot sigma b)) (Fin e) ite
         = Inr (log_state_x n m sigma (lin_loop n m K p q tol maxite a b e ite))"
    using assms(1-4) K K_def
  proof (induction n m K p q tol maxite a b e ite rule: lin_loop.induct)
    case (1 n m K p q tol maxite a b e ite)
    show ?case
    proof (cases "tol < e \<and> real ite < maxite")
      case True
      let ?a = "spec_a m K p b"
      let ?b = "spec_b n K q ?a"
      have b': "pos_on m ?b"
        using "1.prems" by (intro spec_b_pos_mass spec_a_mass)
      have "log_loop exact (fin2 n m phi) (vec n (potx sigma p)) (fin1 m (pot sigma q)) (fin1 m q) n sigma
              tol maxite (map_option (\<lambda>a. vec n (potx sigma a)) a) (fin1 m (pot sigma b)) (Fin e) ite
          = log_loop exact (fin2 n m phi) (vec n (potx sigma p)) (fin1 m (pot sigma q)) (fin1 m q) n sigma
              tol maxite (map_option (\<lambda>a. vec n (potx sigma a)) (Some ?a)) (fin1 m (pot sigma ?b))
              (Fin (spec_error n m K q ?a b)) (Suc ite)"
        using True "1.prems"
        by (subst log_loop.simps) (simp add: log_body_mass)
      also have "\<dots> = Inr (log_state_x n m sigma (lin_loop n m K p q tol maxite (Some ?a) ?b
                   (spec_error n m K q ?a b) (Suc ite)))"
        using True "1.prems" b' by (intro "1.IH") auto
      also have "\<dots> = Inr (log_state_x n m sigma (lin_loop n m K p q tol maxite a b e ite))"
        using True by (subst (2) lin_loop.simps) simp
      finally show ?thesis .
    next
      case False
      then show ?thesis
        by (subst log_loop.simps, subst lin_loop.simps) (auto simp: log_state_x_def)
    qed
  qed
  then show ?thesis
    using assms(5) K_def by simp
qed

lemma pi_of_potx:
  assumes "0 < sigma" "mass_on n a" "pos_on m b"
  shows "pi_of exact (fin2 n m phi) n sigma (vec n (potx sigma a)) (fin1 m (pot sigma b))
       = Inr (fin2 n m (\<lambda>i j. kernel sigma phi i j * a i * b j))"
proof -
  have s0: "sigma \<noteq> 0" using assms(1) by simp
  have "tab n m (\<lambda>i j. fexp exact (fdiv exact
            (fsub exact (fsub exact (Fin (phi i j)) (potx sigma a i)) (Fin (pot sigma b j))) (Fin sigma)))
      = tab n m (\<lambda>i j. Fin (kernel sigma phi i j * a i * b j))"
  proof (rule tab_cong)
    fix i j assume ij: "i < n" "j < m"
    then have bj: "0 < b j" using assms(3) by (simp add: pos_on_def)
    show "fexp exact (fdiv exact
            (fsub exact (fsub exact (Fin (phi i j)) (potx sigma a i)) (Fin (pot sigma b j))) (Fin sigma))
          = Fin (kernel sigma phi i j * a i * b j)"
    proof (cases "a i = 0")
      case True
      then show ?thesis using assms(1) by (simp add: potx_def fsub_def)
    next
      case False
      then have "0 < a i" using assms(2) ij by (auto simp: mass_on_def nonneg_on_def less_le)
      from exp_pot[OF s0 this bj, of "phi i j"] False
      show ?thesis using s0 by (simp add: potx_def fsub_def kernel_def pot_def)
    qed
  qed
  then show ?thesis
    by (simp add: pi_of_def fin2_def fin1_def exp_over_def)
qed

lemma ipfp_log_mass:
  assumes n: "0 < n" and m: "0 < m" and sigma: "0 < sigma" and p: "nonneg_on n p" and q: "pos_on m q"
    and p1: "(\<Sum>i<n. p i) = 1" and maxite: "0 < maxite"
    and fin: "lin_loop n m (kernel sigma phi) p q tol maxite None (\<lambda>j. 1) (tol + 1) 0 = (a', b', e', ite')"
  shows "\<exists>a r. a' = Some a \<and>
           ipfp_log exact (fin2 n m phi) (fin1 n p) (fin1 m q) n m sigma tol maxite = Inr r \<and>
           res_status r = status_of ite' maxite \<and> res_ite r = ite' \<and>
           res_pi r = fin2 n m (\<lambda>i j. kernel sigma phi i j * a i * b' j)"
proof -
  let ?K = "kernel sigma phi"
  have pm: "mass_on n p" by (rule mass_on_sum[OF p p1])
  have one: "pos_on m (\<lambda>j. 1)" by (simp add: pos_on_def)
  have K: "pos_on2 n m ?K" by (rule kernel_pos)
  from ipfp1_loop_run_mass[OF m K pm q maxite fin]
  obtain a where r: "a' = Some a" "mass_on n a" "pos_on m b'"
    by blast
  have loop: "log_loop exact (fin2 n m phi) (vec n (potx sigma p)) (fin1 m (pot sigma q)) (fin1 m q)
                n sigma tol maxite None (fin1 m (pot sigma (\<lambda>j. 1))) (Fin (tol + 1)) 0
            = Inr (Some (vec n (potx sigma a)), fin1 m (pot sigma b'), Fin e', ite')"
    using log_loop_refines_mass[OF m sigma pm q one, of phi tol maxite None "tol + 1" 0] fin r(1)
    by (simp add: log_state_x_def)
  obtain x where x: "objective exact sigma (fin2 n m phi) (fin2 n m (\<lambda>i j. ?K i j * a i * b' j)) = Inr x"
    using objective_shape[of n n exact sigma m] by (auto simp: fin2_def)
  have "ipfp_log exact (fin2 n m phi) (fin1 n p) (fin1 m q) n m sigma tol maxite =
             Inr \<lparr>res_status = status_of ite' maxite, res_ite = ite',
                  res_u = vec n (potx sigma a), res_v = fin1 m (pot sigma b'),
                  res_pi = fin2 n m (\<lambda>i j. ?K i j * a i * b' j),
                  res_val = x\<rparr>"
    unfolding ipfp_log_def
    by (simp add: neg_sigma_log_mass[OF sigma p] neg_sigma_log_exact[OF q] zeros_pot[of m sigma] loop
        finish_def pi_of_potx[OF sigma r(2,3)] x)
  then show ?thesis
    using r(1) by simp
qed

section \<open>The format float64\<close>

lemma rne_close: "\<bar>of_int (rne y) - y\<bar> \<le> 1 / 2"
  unfolding rne_def Let_def by (auto simp: abs_le_iff)

lemma rne_ge: "of_int n \<le> y \<Longrightarrow> n \<le> rne y"
  using le_floor_iff[of n y] by (auto simp: rne_def Let_def)

lemma rne_le: "y \<le> of_int n \<Longrightarrow> rne y \<le> n"
  unfolding rne_def Let_def
  by (auto simp: floor_le_iff)

lemma rne_int [simp]: "rne (of_int n) = n"
  by (simp add: rne_def)

lemma expo_ge: "- 1022 \<le> expo x"
  by (simp add: expo_def)

lemma raw_bounds:
  assumes "(x::real) \<noteq> 0"
  defines "r \<equiv> (if 1 \<le> \<bar>x\<bar> then bitlen \<lfloor>\<bar>x\<bar>\<rfloor> - 1 else - bitlen (\<lceil>1 / \<bar>x\<bar>\<rceil> - 1))"
  shows "power_int 2 r \<le> \<bar>x\<bar> \<and> \<bar>x\<bar> < power_int 2 (r + 1)"
proof (cases "1 \<le> \<bar>x\<bar>")
  case True
  let ?n = "\<lfloor>\<bar>x\<bar>\<rfloor>"
  have n: "0 < ?n" using True by simp
  have b1: "1 \<le> bitlen ?n" using n by (simp add: bitlen_alt_def)
  from bitlen_bounds[OF n] have lo: "2 ^ nat (bitlen ?n - 1) \<le> ?n" and hi: "?n < 2 ^ nat (bitlen ?n)"
    by auto
  have "2 ^ nat (bitlen ?n - 1) \<le> \<bar>x\<bar>"
    using lo by (simp add: le_floor_iff)
  then have 1: "power_int 2 (bitlen ?n - 1) \<le> \<bar>x\<bar>"
    using b1 by (simp add: power_int_def)
  have "\<bar>x\<bar> < 2 ^ nat (bitlen ?n)"
    using hi by (simp add: floor_less_iff)
  then have 2: "\<bar>x\<bar> < power_int 2 (bitlen ?n)"
    using b1 by (simp add: power_int_def)
  show ?thesis
    using True 1 2 by (simp add: r_def)
next
  case False
  let ?y = "1 / \<bar>x\<bar>"
  let ?N = "\<lceil>?y\<rceil> - 1"
  have x: "0 < \<bar>x\<bar>" "\<bar>x\<bar> < 1" using assms(1) False by simp_all
  then have y: "1 < ?y" by simp
  then have "1 < \<lceil>?y\<rceil>" by (simp add: less_ceiling_iff)
  then have N: "0 < ?N" by simp
  have b1: "1 \<le> bitlen ?N" using N by (simp add: bitlen_alt_def)
  from bitlen_bounds[OF N] have lo: "2 ^ nat (bitlen ?N - 1) < \<lceil>?y\<rceil>" and hi: "\<lceil>?y\<rceil> \<le> 2 ^ nat (bitlen ?N)"
    by auto
  have "2 ^ nat (bitlen ?N - 1) < ?y"
    using lo by (simp add: less_ceiling_iff)
  then have "\<bar>x\<bar> * 2 ^ nat (bitlen ?N - 1) < 1"
    using x(1) by (simp add: field_simps)
  then have "\<bar>x\<bar> < 1 / 2 ^ nat (bitlen ?N - 1)"
    by (simp add: field_simps)
  moreover have "nat (bitlen ?N - 1) = nat (bitlen ?N) - 1" by simp
  moreover have "(power_int 2 (- bitlen ?N + 1) :: real) = 1 / 2 ^ nat (bitlen ?N - 1)"
  proof (cases "bitlen ?N = 1")
    case True
    then show ?thesis by simp
  next
    case False
    then have "- bitlen ?N + 1 < 0" using b1 by simp
    moreover have "nat (- (- bitlen ?N + 1)) = nat (bitlen ?N - 1)" by simp
    ultimately show ?thesis
      by (simp add: power_int_def field_simps)
  qed
  ultimately have 2: "\<bar>x\<bar> < power_int 2 (- bitlen ?N + 1)" by simp
  have "?y \<le> 2 ^ nat (bitlen ?N)"
    using hi by (simp add: ceiling_le_iff)
  then have "1 \<le> \<bar>x\<bar> * 2 ^ nat (bitlen ?N)"
    using x(1) by (simp add: field_simps)
  then have "1 / 2 ^ nat (bitlen ?N) \<le> \<bar>x\<bar>"
    by (simp add: field_simps)
  moreover have "1 / 2 ^ nat (bitlen ?N) = (power_int 2 (- bitlen ?N) :: real)"
    using b1 by (simp add: power_int_def field_simps)
  ultimately have 1: "power_int 2 (- bitlen ?N) \<le> \<bar>x\<bar>" by simp
  show ?thesis
    using False 1 2 by (simp add: r_def)
qed


lemma expo_bounds:
  assumes "(x::real) \<noteq> 0"
  shows "\<bar>x\<bar> < power_int 2 (expo x + 1)" "power_int 2 (expo x) \<le> \<bar>x\<bar> \<or> expo x = - 1022"
proof -
  define r where "r = (if 1 \<le> \<bar>x\<bar> then bitlen \<lfloor>\<bar>x\<bar>\<rfloor> - 1 else - bitlen (\<lceil>1 / \<bar>x\<bar>\<rceil> - 1))"
  have rb: "power_int 2 r \<le> \<bar>x\<bar>" "\<bar>x\<bar> < power_int 2 (r + 1)"
    using raw_bounds[OF assms] by (simp_all add: r_def)
  have e: "expo x = max (- 1022) r" by (simp add: expo_def r_def)
  show "\<bar>x\<bar> < power_int 2 (expo x + 1)"
  proof (cases "- 1022 \<le> r")
    case True
    then show ?thesis using rb(2) e by simp
  next
    case False
    then have "(power_int 2 (r + 1) :: real) \<le> power_int 2 (expo x + 1)"
      unfolding e by (intro power_int_increasing) simp_all
    with rb(2) show ?thesis by simp
  qed
  show "power_int 2 (expo x) \<le> \<bar>x\<bar> \<or> expo x = - 1022"
    using rb(1) e by (cases "- 1022 \<le> r") (simp_all add: max_def)
qed

lemma p2_le_D: "(power_int 2 a :: real) \<le> power_int 2 b \<Longrightarrow> a \<le> b"
  using power_int_strict_increasing[of b a "2::real"] by (cases "a \<le> b") auto

lemma p2_less_D: "(power_int 2 a :: real) < power_int 2 b \<Longrightarrow> a < b"
  using power_int_increasing[of b a "2::real"] by (cases "a < b") auto

lemma expo_ge_k:
  assumes "(x::real) \<noteq> 0" "power_int 2 k \<le> \<bar>x\<bar>"
  shows "k \<le> expo x"
proof -
  have "(power_int 2 k :: real) < power_int 2 (expo x + 1)"
    using expo_bounds(1)[OF assms(1)] assms(2) by simp
  then have "k < expo x + 1"
    by (rule p2_less_D)
  then show ?thesis by simp
qed

lemma expo_le_k:
  assumes "(x::real) \<noteq> 0" "\<bar>x\<bar> \<le> power_int 2 k" "- 1022 \<le> k"
  shows "expo x \<le> k"
proof -
  from expo_bounds(2)[OF assms(1)] show ?thesis
  proof
    assume "power_int 2 (expo x) \<le> \<bar>x\<bar>"
    then have "(power_int 2 (expo x) :: real) \<le> power_int 2 k"
      using assms(2) by simp
    then show ?thesis by (rule p2_le_D)
  next
    assume "expo x = - 1022"
    then show ?thesis using assms(3) by simp
  qed
qed


lemma rne_minus: "rne (- y) = - rne y"
proof (cases "y = of_int \<lfloor>y\<rfloor>")
  case True
  then obtain n where "y = of_int n" by blast
  then have "- y = of_int (- n)" by simp
  then show ?thesis using \<open>y = of_int n\<close> by (simp only: rne_int)
next
  case False
  then have f: "\<lfloor>- y\<rfloor> = - \<lfloor>y\<rfloor> - 1"
    by (simp add: floor_minus ceiling_altdef)
  show ?thesis
    unfolding rne_def Let_def f by auto
qed

lemma expo_minus [simp]: "expo (- x) = expo x"
  by (simp add: expo_def)

lemma rnd53_minus: "rnd53 (- x) = - rnd53 x"
  by (simp add: rnd53_def Let_def rne_minus)

lemma u_pos [simp]: "0 < (power_int 2 k :: real)"
  by simp

lemma rnd53_close: "\<bar>rnd53 x - x\<bar> \<le> power_int 2 (expo x - 52) / 2"
proof -
  let ?u = "power_int 2 (expo x - 52) :: real"
  have "\<bar>of_int (rne (x / ?u)) - x / ?u\<bar> \<le> 1 / 2" by (rule rne_close)
  then have "\<bar>of_int (rne (x / ?u)) - x / ?u\<bar> * ?u \<le> 1 / 2 * ?u"
    by (intro mult_right_mono) simp_all
  moreover have "\<bar>of_int (rne (x / ?u)) - x / ?u\<bar> * ?u = \<bar>of_int (rne (x / ?u)) * ?u - x\<bar>"
  proof -
    have "\<bar>of_int (rne (x / ?u)) - x / ?u\<bar> * ?u = \<bar>(of_int (rne (x / ?u)) - x / ?u) * ?u\<bar>"
      by (simp only: abs_mult abs_of_pos[OF u_pos])
    also have "(of_int (rne (x / ?u)) - x / ?u) * ?u = of_int (rne (x / ?u)) * ?u - x"
      by (simp add: left_diff_distrib)
    finally show ?thesis .
  qed
  ultimately show ?thesis
    by (simp add: rnd53_def Let_def)
qed

lemma rnd53_upper:
  assumes "x \<noteq> 0" "x \<le> power_int 2 k" "- 1022 \<le> k" "0 < x"
  shows "rnd53 x \<le> power_int 2 k"
proof -
  let ?e = "expo x"
  let ?u = "power_int 2 (?e - 52) :: real"
  have e: "?e \<le> k"
    using expo_le_k[OF assms(1) _ assms(3)] assms(2,4) by simp
  then have d: "0 \<le> k - ?e + 52" by simp
  have "(power_int 2 k :: real) = power_int 2 (k - ?e + 52) * ?u"
    by (simp flip: power_int_add)
  also have "(power_int 2 (k - ?e + 52) :: real) = of_int (2 ^ nat (k - ?e + 52))"
    using d by (simp add: power_int_def)
  finally have c: "(power_int 2 k :: real) = of_int (2 ^ nat (k - ?e + 52)) * ?u" .
  have "x / ?u \<le> of_int (2 ^ nat (k - ?e + 52))"
    using assms(2) unfolding c by (simp add: field_simps)
  then have "rne (x / ?u) \<le> 2 ^ nat (k - ?e + 52)" by (rule rne_le)
  then have "real_of_int (rne (x / ?u)) \<le> of_int (2 ^ nat (k - ?e + 52))"
    by (simp only: of_int_le_iff)
  then have "of_int (rne (x / ?u)) * ?u \<le> of_int (2 ^ nat (k - ?e + 52)) * ?u"
    by (intro mult_right_mono) simp_all
  then show ?thesis
    unfolding c[symmetric] by (simp add: rnd53_def Let_def)
qed

lemma rnd53_lower:
  assumes "power_int 2 k \<le> x" "- 1022 \<le> k"
  shows "power_int 2 k \<le> rnd53 x"
proof -
  let ?e = "expo x"
  let ?u = "power_int 2 (?e - 52) :: real"
  have x: "0 < x" "x \<noteq> 0"
    using assms(1) u_pos[of k] by linarith+
  have e: "k \<le> ?e"
    using expo_ge_k[OF x(2), of k] assms(1) x(1) by simp
  have xe: "power_int 2 ?e \<le> x"
    using expo_bounds(2)[OF x(2)] e assms x(1) by auto
  have c: "(power_int 2 ?e :: real) = of_int (2 ^ 52) * ?u"
    using power_int_add[of "2::real" 52 "?e - 52"] by simp
  have "of_int (2 ^ 52) \<le> x / ?u"
    using xe unfolding c by (simp add: field_simps)
  then have "2 ^ 52 \<le> rne (x / ?u)" by (rule rne_ge)
  then have "real_of_int (2 ^ 52) \<le> of_int (rne (x / ?u))"
    by (simp only: of_int_le_iff)
  then have "of_int (2 ^ 52) * ?u \<le> of_int (rne (x / ?u)) * ?u"
    by (intro mult_right_mono) simp_all
  then have "power_int 2 ?e \<le> rnd53 x"
    unfolding c[symmetric] by (simp add: rnd53_def Let_def)
  moreover have "(power_int 2 k :: real) \<le> power_int 2 ?e"
    using e by (intro power_int_increasing) simp_all
  ultimately show ?thesis by linarith
qed

lemma rnd53_nonneg: "0 \<le> x \<Longrightarrow> 0 \<le> rnd53 x"
proof -
  assume "0 \<le> x"
  then have "of_int 0 \<le> x / power_int 2 (expo x - 52)" by simp
  then have "0 \<le> rne (x / power_int 2 (expo x - 52))" by (rule rne_ge)
  then show ?thesis by (simp add: rnd53_def Let_def)
qed


lemma float64_minus: "float64 (- x) = fneg (float64 x)"
  by (simp add: float64_def rnd53_minus)

lemma float64_keeps_0: "keeps float64 0"
  unfolding keeps_def
proof (intro allI conjI impI)
  fix x :: real
  assume "0 \<le> x"
  then show "fge (float64 x) 0"
    using rnd53_nonneg[of x] by (auto simp: float64_def)
next
  fix x :: real
  assume "x \<le> 0"
  then have "0 \<le> rnd53 (- x)" by (intro rnd53_nonneg) simp
  then have "rnd53 x \<le> 0" by (simp add: rnd53_minus)
  then show "fle (float64 x) 0"
    using \<open>x \<le> 0\<close> by (auto simp: float64_def)
qed

lemma float64_keeps_pow:
  assumes "- 1022 \<le> k" "k \<le> 1023"
  shows "keeps float64 (power_int 2 k)"
  unfolding keeps_def
proof (intro allI conjI impI)
  fix x :: real
  assume c: "power_int 2 k \<le> x"
  then have x: "0 < x" using u_pos[of k] by linarith
  from rnd53_lower[OF c assms(1)] show "fge (float64 x) (power_int 2 k)"
    using x by (auto simp: float64_def)
next
  fix x :: real
  assume c: "x \<le> power_int 2 k"
  have big: "(power_int 2 k :: real) < 2 ^ 1024"
  proof -
    have "(power_int 2 k :: real) \<le> power_int 2 1023"
      using assms(2) by (intro power_int_increasing) simp_all
    also have "\<dots> < 2 ^ 1024" by simp
    finally show ?thesis .
  qed
  show "fle (float64 x) (power_int 2 k)"
  proof (cases "0 < x")
    case True
    then have "x \<noteq> 0" by simp
    from rnd53_upper[OF this c assms(1) True] rnd53_nonneg[of x] True big
    show ?thesis by (auto simp: float64_def)
  next
    case False
    then have "0 \<le> rnd53 (- x)" by (intro rnd53_nonneg) simp
    then have "rnd53 x \<le> 0" by (simp add: rnd53_minus)
    moreover have "0 \<le> (power_int 2 k :: real)" by simp
    ultimately have "rnd53 x \<le> power_int 2 k" by linarith
    then show ?thesis
      using False by (auto simp: float64_def)
  qed
qed

lemma fneg_fge: "fge (fneg a) (- c) = fle a c"
  by (cases a) auto

lemma fneg_fle: "fle (fneg a) (- c) = fge a c"
  by (cases a) auto

lemma float64_keeps_minus:
  assumes "keeps float64 c"
  shows "keeps float64 (- c)"
  unfolding keeps_def
proof (intro allI conjI impI)
  fix x :: real
  assume "- c \<le> x"
  then have "- x \<le> c" by simp
  then have "fle (float64 (- x)) c" using assms by (simp add: keeps_def)
  then show "fge (float64 x) (- c)"
    using fneg_fge[of "float64 (- x)" c] by (simp add: float64_minus[of "- x", simplified])
next
  fix x :: real
  assume "x \<le> - c"
  then have "c \<le> - x" by simp
  then have "fge (float64 (- x)) c" using assms by (simp add: keeps_def)
  then show "fle (float64 x) (- c)"
    using fneg_fle[of "float64 (- x)" c] by (simp add: float64_minus[of "- x", simplified])
qed

lemma float64_add_one:
  assumes "\<bar>tol\<bar> < 2 ^ 53"
  shows "fgt (fadd float64 (Fin tol) (Fin 1)) (Fin tol)"
proof -
  let ?x = "tol + 1"
  have up: "rnd53 ?x \<le> 2 ^ 54" if "0 < ?x"
  proof -
    have "?x \<le> power_int 2 54" using assms by simp
    from rnd53_upper[OF _ this _ that] that show ?thesis by simp
  qed
  have low: "tol < rnd53 ?x" if "?x \<noteq> 0"
  proof (cases "2 ^ 53 \<le> ?x")
    case True
    then have "power_int 2 53 \<le> ?x" by simp
    from rnd53_lower[OF this] have "2 ^ 53 \<le> rnd53 ?x" by simp
    with assms show ?thesis by linarith
  next
    case False
    then have a: "\<bar>?x\<bar> < 2 ^ 53" using assms by (simp add: abs_less_iff)
    have "expo ?x \<le> 52"
    proof -
      from expo_bounds(2)[OF that] show ?thesis
      proof
        assume "power_int 2 (expo ?x) \<le> \<bar>?x\<bar>"
        then have "(power_int 2 (expo ?x) :: real) < power_int 2 53" using a by simp
        then have "expo ?x < 53" by (rule p2_less_D)
        then show ?thesis by simp
      next
        assume "expo ?x = - 1022"
        then show ?thesis by simp
      qed
    qed
    then have "(power_int 2 (expo ?x - 52) :: real) \<le> power_int 2 0"
      by (intro power_int_increasing) simp_all
    then have "power_int 2 (expo ?x - 52) / 2 \<le> (1 / 2 :: real)" by simp
    with rnd53_close[of ?x] have "\<bar>rnd53 ?x - ?x\<bar> \<le> 1 / 2" by linarith
    then show ?thesis by linarith
  qed
  have fin: "\<bar>rnd53 ?x\<bar> < 2 ^ 1024" if "?x \<noteq> 0"
  proof (cases "0 < ?x")
    case True
    have "(2::real) ^ 54 < 2 ^ 1024" by simp
    with up[OF True] rnd53_nonneg[of ?x] True show ?thesis by (simp add: abs_less_iff)
  next
    case False
    then have n: "0 \<le> - ?x" by simp
    from rnd53_nonneg[OF n] have "rnd53 ?x \<le> 0" by (simp only: rnd53_minus neg_0_le_iff_le)
    moreover have "- (2 ^ 53) < rnd53 ?x" using low[OF that] assms by (simp add: abs_less_iff)
    moreover have "(2::real) ^ 53 < 2 ^ 1024" by simp
    ultimately show ?thesis by (simp add: abs_less_iff)
  qed
  show ?thesis
  proof (cases "?x = 0")
    case True
    then have "tol = - 1" by simp
    then show ?thesis by (simp add: float64_def)
  next
    case False
    with low[OF False] fin[OF False] show ?thesis
      by (simp add: float64_def)
  qed
qed

lemma float64_big_tol: "fadd float64 (Fin (10 ^ 16)) (Fin 1) = Fin (10 ^ 16)"
proof -
  have "float64 (10 ^ 16 + 1) = Fin (10 ^ 16)" by code_simp
  then show ?thesis by simp
qed

lemma max_float64_alt: "max_float64 = of_int (2 ^ 53 - 1) * power_int 2 971"
  by (simp add: max_float64_def)

lemma expo_1023:
  assumes "power_int 2 1023 \<le> x" "x < power_int 2 1024"
  shows "expo x = 1023"
proof -
  have x: "x \<noteq> 0" "0 < x" using assms(1) u_pos[of 1023] by linarith+
  have 1: "1023 \<le> expo x"
    using expo_ge_k[OF x(1), of 1023] assms(1) x(2) by simp
  then have "power_int 2 (expo x) \<le> \<bar>x\<bar>"
    using expo_bounds(2)[OF x(1)] by auto
  then have "(power_int 2 (expo x) :: real) < power_int 2 1024"
    using assms(2) x(2) by simp
  then have "expo x < 1024" by (rule p2_less_D)
  with 1 show ?thesis by simp
qed

lemma rnd53_top:
  assumes "power_int 2 1023 \<le> x" "x < power_int 2 1024"
  shows "(max_float64 \<le> x \<longrightarrow> max_float64 \<le> rnd53 x) \<and> (x \<le> max_float64 \<longrightarrow> rnd53 x \<le> max_float64)"
proof -
  let ?u = "power_int 2 971 :: real"
  have r: "rnd53 x = of_int (rne (x / ?u)) * ?u"
    by (simp add: rnd53_def Let_def expo_1023[OF assms])
  show ?thesis
  proof (intro conjI impI)
    assume "max_float64 \<le> x"
    then have "of_int (2 ^ 53 - 1) \<le> x / ?u"
      unfolding max_float64_alt by (simp add: field_simps)
    then have "2 ^ 53 - 1 \<le> rne (x / ?u)" by (rule rne_ge)
    then have "real_of_int (2 ^ 53 - 1) \<le> of_int (rne (x / ?u))"
      by (simp only: of_int_le_iff)
    then have "of_int (2 ^ 53 - 1) * ?u \<le> of_int (rne (x / ?u)) * ?u"
      by (intro mult_right_mono) simp_all
    then show "max_float64 \<le> rnd53 x"
      unfolding r max_float64_alt .
  next
    assume "x \<le> max_float64"
    then have "x / ?u \<le> of_int (2 ^ 53 - 1)"
      unfolding max_float64_alt by (simp add: field_simps)
    then have "rne (x / ?u) \<le> 2 ^ 53 - 1" by (rule rne_le)
    then have "real_of_int (rne (x / ?u)) \<le> of_int (2 ^ 53 - 1)"
      by (simp only: of_int_le_iff)
    then have "of_int (rne (x / ?u)) * ?u \<le> of_int (2 ^ 53 - 1) * ?u"
      by (intro mult_right_mono) simp_all
    then show "rnd53 x \<le> max_float64"
      unfolding r max_float64_alt .
  qed
qed

lemma max_float64_bounds: "power_int 2 1023 \<le> max_float64" "max_float64 < 2 ^ 1024" "0 < max_float64"
  by (simp_all add: max_float64_def)

lemma float64_keeps_max: "keeps float64 max_float64"
  unfolding keeps_def
proof (intro allI conjI impI)
  fix x :: real
  assume c: "max_float64 \<le> x"
  then have x: "0 < x" using max_float64_bounds(3) by linarith
  have "max_float64 \<le> rnd53 x"
  proof (cases "x < power_int 2 1024")
    case True
    have "power_int 2 1023 \<le> x" using c max_float64_bounds(1) by linarith
    from rnd53_top[OF this True] c show ?thesis by simp
  next
    case False
    then have "power_int 2 1024 \<le> x" by simp
    from rnd53_lower[OF this] have "power_int 2 1024 \<le> rnd53 x" by simp
    then show ?thesis using max_float64_bounds(2) by simp
  qed
  then show "fge (float64 x) max_float64"
    using x by (auto simp: float64_def)
next
  fix x :: real
  assume c: "x \<le> max_float64"
  show "fle (float64 x) max_float64"
  proof (cases "0 < x")
    case True
    then have x0: "x \<noteq> 0" by simp
    have "rnd53 x \<le> max_float64"
    proof (cases "x \<le> power_int 2 1023")
      case True
      from rnd53_upper[OF x0 True _ \<open>0 < x\<close>] have "rnd53 x \<le> power_int 2 1023" by simp
      then show ?thesis using max_float64_bounds(1) by linarith
    next
      case False
      then have 1: "power_int 2 1023 \<le> x" by simp
      have 2: "x < power_int 2 1024" using c max_float64_bounds(2) by simp
      from rnd53_top[OF 1 2] c show ?thesis by simp
    qed
    then show ?thesis
      using rnd53_nonneg[of x] True max_float64_bounds(2) by (auto simp: float64_def)
  next
    case False
    then have "0 \<le> rnd53 (- x)" by (intro rnd53_nonneg) simp
    then have "rnd53 x \<le> 0" by (simp add: rnd53_minus)
    then have "rnd53 x \<le> max_float64" using max_float64_bounds(3) by linarith
    then show ?thesis
      using False max_float64_bounds(3) by (auto simp: float64_def)
  qed
qed

lemma float64_rounds_within: "rounds_within float64 max_float64"
  unfolding rounds_within_def
  using float64_keeps_0 float64_keeps_pow[of 0] float64_keeps_max
    float64_keeps_minus[OF float64_keeps_max]
  by simp

section \<open>The first error of the log-sum-exp loop, in any format\<close>

lemma keepsD1: "keeps R c \<Longrightarrow> c \<le> x \<Longrightarrow> fge (R x) c"
  by (simp add: keeps_def)

lemma keepsD2: "keeps R c \<Longrightarrow> x \<le> c \<Longrightarrow> fle (R x) c"
  by (simp add: keeps_def)

lemma keeps_fix: "keeps R c \<Longrightarrow> R c = Fin c"
  using keepsD1[of R c c] keepsD2[of R c c] by (cases "R c") auto

lemma keeps_exact: "keeps exact c"
  by (simp add: keeps_def)

lemma fge_cases: "fge a c \<longleftrightarrow> a = PInf \<or> (\<exists>y. a = Fin y \<and> c \<le> y)"
  by (cases a) auto

lemma fle_cases: "fle a c \<longleftrightarrow> a = NInf \<or> (\<exists>y. a = Fin y \<and> y \<le> c)"
  by (cases a) auto

lemma fadd_fge:
  assumes "keeps R c" "fge a c1" "fge b c2" "c \<le> c1 + c2"
  shows "fge (fadd R a b) c"
proof -
  consider "a = PInf" | "b = PInf" "a \<noteq> PInf" | x y where "a = Fin x" "b = Fin y" "c1 \<le> x" "c2 \<le> y"
    using assms(2,3) by (auto simp: fge_cases)
  then show ?thesis
  proof cases
    case 1
    then show ?thesis using assms(3) by (cases b) auto
  next
    case 2
    then show ?thesis using assms(2) by (cases a) auto
  next
    case 3
    have "fge (R (x + y)) c"
      by (rule keepsD1[OF assms(1)]) (use 3 assms(4) in linarith)
    then show ?thesis using 3 by simp
  qed
qed

lemma foldl_fadd_fge1:
  assumes "keeps R 0" "keeps R 1"
  shows "fge acc 1 \<or> (fge acc 0 \<and> (\<exists>x\<in>set xs. fge x 1)) \<Longrightarrow> \<forall>x\<in>set xs. fge x 0
           \<Longrightarrow> fge (foldl (fadd R) acc xs) 1"
proof (induction xs arbitrary: acc)
  case Nil
  then show ?case by simp
next
  case (Cons x xs)
  have x: "fge x 0" using Cons.prems(2) by simp
  show ?case
  proof (cases "fge acc 1 \<or> fge x 1")
    case True
    then have "fge (fadd R acc x) 1"
    proof
      assume "fge acc 1"
      then show ?thesis using fadd_fge[OF assms(2), of acc 1 x 0] x by simp
    next
      assume x1: "fge x 1"
      have "fge acc 0" using Cons.prems(1) by (auto simp: fge_cases)
      then show ?thesis using fadd_fge[OF assms(2), of acc 0 x 1] x1 by simp
    qed
    then show ?thesis
      using Cons.IH[of "fadd R acc x"] Cons.prems(2) by simp
  next
    case False
    then have a: "fge acc 0" "\<exists>x\<in>set xs. fge x 1"
      using Cons.prems(1) by auto
    have "fge (fadd R acc x) 0"
      using fadd_fge[OF assms(1), of acc 0 x 0] a(1) x by simp
    then show ?thesis
      using Cons.IH[of "fadd R acc x"] Cons.prems(2) a(2) by simp
  qed
qed

lemma fsum_fge1:
  assumes "keeps R 0" "keeps R 1" "\<forall>j<m. fge (f j) 0" "j0 < m" "fge (f j0) 1"
  shows "fge (fsum R (vec m f)) 1"
proof -
  have "\<forall>x\<in>set (vec m f). fge x 0"
    using assms(3) by (auto simp: vec_def)
  moreover have "\<exists>x\<in>set (vec m f). fge x 1"
    using assms(4,5) by (auto simp: vec_def intro!: bexI[of _ j0])
  moreover have "fge (Fin 0) 0" by simp
  ultimately show ?thesis
    unfolding fsum_def using foldl_fadd_fge1[OF assms(1,2), of "Fin 0" "vec m f"] by blast
qed

lemma sigma_log_fge:
  assumes "0 < sigma" "keeps R 0" "fge s 1"
  shows "fge (fmul R (Fin sigma) (flog R s)) 0"
proof -
  consider "s = PInf" | y where "s = Fin y" "1 \<le> y"
    using assms(3) by (auto simp: fge_cases)
  then show ?thesis
  proof cases
    case 1
    then show ?thesis using assms(1) by simp
  next
    case 2
    then have "0 \<le> ln y" by simp
    then have "fge (R (ln y)) 0" by (rule keepsD1[OF assms(2)])
    then consider "R (ln y) = PInf" | l where "R (ln y) = Fin l" "0 \<le> l"
      by (auto simp: fge_cases)
    then show ?thesis
    proof cases
      case 1
      then show ?thesis using 2 assms(1) by simp
    next
      case 2
      have "0 \<le> sigma * l" using 2(2) assms(1) by simp
      then have "fge (R (sigma * l)) 0" by (rule keepsD1[OF assms(2)])
      then show ?thesis using 2 \<open>s = Fin y\<close> \<open>1 \<le> y\<close> by simp
    qed
  qed
qed

lemma neg_sigma_log_fge:
  assumes "0 < sigma" "keeps R 0" "0 \<le> p" "p \<le> 1"
  shows "fge (fmul R (Fin (- sigma)) (flog R (Fin p))) 0"
proof (cases "p = 0")
  case True
  then show ?thesis using assms(1) by (simp add: flog.simps)
next
  case False
  then have p: "0 < p" using assms(3) by simp
  then have "ln p \<le> 0" using assms(4) by simp
  then have "fle (R (ln p)) 0" by (rule keepsD2[OF assms(2)])
  then consider "R (ln p) = NInf" | l where "R (ln p) = Fin l" "l \<le> 0"
    by (auto simp: fle_cases)
  then show ?thesis
  proof cases
    case 1
    then show ?thesis using p assms(1) by simp
  next
    case 2
    have "0 \<le> - sigma * l" using 2(2) assms(1) by (simp add: mult_le_0_iff)
    then have "fge (R (- sigma * l)) 0" by (rule keepsD1[OF assms(2)])
    then show ?thesis using 2 p by simp
  qed
qed

lemma exp_arg_fge:
  assumes "0 < sigma" "keeps R 0" "fle d 0"
  shows "fge (fexp R (fdiv R d (Fin sigma))) 0"
proof -
  consider "d = NInf" | y where "d = Fin y" "y \<le> 0"
    using assms(3) by (auto simp: fle_cases)
  then show ?thesis
  proof cases
    case 1
    then show ?thesis using assms(1) by simp
  next
    case 2
    have "y / sigma \<le> 0" using 2(2) assms(1) by (simp add: divide_le_0_iff)
    then have "fle (R (y / sigma)) 0" by (rule keepsD2[OF assms(2)])
    then consider "R (y / sigma) = NInf" | x where "R (y / sigma) = Fin x"
      by (auto simp: fle_cases)
    then show ?thesis
    proof cases
      case 1
      then show ?thesis using 2 assms(1) by simp
    next
      case 2
      have "fge (R (exp x)) 0" by (rule keepsD1[OF assms(2)]) simp
      then show ?thesis using 2 \<open>d = Fin y\<close> assms(1) by simp
    qed
  qed
qed

lemma exp_arg_max:
  assumes "0 < sigma" "keeps R 0" "keeps R 1"
  shows "fge (fexp R (fdiv R (R 0) (Fin sigma))) 1"
  using assms(1) keepsD1[OF assms(3), of 1]
  by (simp add: keeps_fix[OF assms(2)])

lemma lse_u_args_tab:
  assumes "0 < n" "0 < m"
  shows "lse_u_args R (tab n m phi) n sigma (vec m v) =
     Inr (vec n (vmax R m phi v),
          tab n m (\<lambda>i j. fdiv R (fsub R (fsub R (phi i j) (v j)) (vmax R m phi v i)) (Fin sigma)))"
proof -
  have v: "vmax R m phi v = (\<lambda>i. foldl fmax (fsub R (phi i 0) (v 0))
             (vec (m - 1) (\<lambda>j. fsub R (phi i (Suc j)) (v (Suc j)))))"
    by (rule ext) (simp add: vmax_def)
  show ?thesis
    unfolding v using assms by (simp add: lse_u_args_def max_axis0_tab)
qed

lemma lse_body_parts:
  assumes "lse_body R Phi mu nu nbX sigma v uprec = Inr (u, e, v')"
  shows "\<exists>vstar F mv. lse_u_args R Phi nbX sigma v = Inr (vstar, F)
           \<and> bc11 (fadd R) mu vstar = Inr mv
           \<and> bc11 (fadd R) mv (sigma_log R sigma (sum_axis1 R (map2d (fexp R) F))) = Inr u
           \<and> lse_error R u uprec = Inr e"
  using assms
  by (auto simp: lse_body_def bnd_def Let_def split: sum.splits prod.splits)

lemma lse_body_first:
  assumes "0 < n" "0 < m"
    and "lse_body R (tab n m phi) (vec n mu) (vec m nu) n sigma (vec m v) None = Inr (u, e, v')"
  shows "lse_error R (vec n (\<lambda>i. fadd R (fadd R (mu i) (vmax R m phi v i))
            (fmul R (Fin sigma) (flog R (fsum R (vec m (\<lambda>j.
               fexp R (fdiv R (fsub R (fsub R (phi i j) (v j)) (vmax R m phi v i)) (Fin sigma))))))))) None
         = Inr e"
  using lse_body_parts[OF assms(3)] assms(1,2)
  by (auto simp: lse_u_args_tab sigma_log_def)

lemma vmax_fin:
  assumes "0 < m" "\<forall>j<m. fsub R (phi i j) (v j) = Fin (e j)"
  shows "vmax R m phi v i = Fin (Max (e ` {..<m}))"
proof -
  obtain k where m: "m = Suc k" using assms(1) by (cases m) auto
  have 1: "vec (m - 1) (\<lambda>j. fsub R (phi i (Suc j)) (v (Suc j))) = map Fin (map (\<lambda>j. e (Suc j)) [0..<k])"
    unfolding vec_def using m assms(2) by simp
  have 2: "set (e 0 # map (\<lambda>j. e (Suc j)) [0..<k]) = e ` {..<m}"
  proof -
    have "{..<Suc k} = insert 0 (Suc ` {..<k})"
      by (auto simp: lessThan_Suc_eq_insert_0)
    then show ?thesis
      unfolding m by (simp add: image_image atLeast0LessThan)
  qed
  have 3: "fsub R (phi i 0) (v 0) = Fin (e 0)"
    using assms by simp
  show ?thesis
    unfolding vmax_def 1 3 using foldl_fmax_Fin[of "e 0" "map (\<lambda>j. e (Suc j)) [0..<k]"] 2
    by simp
qed

lemma fge_minus_inf: "fge x c \<Longrightarrow> fabs (fsub R x NInf) = PInf"
  by (cases x) (auto simp: fsub_def)

text \<open>
  The first \<open>u\<close> is neither NaN nor \<open>-inf\<close>: with finite differences \<open>Phi[i][j] - v[j]\<close> of at
  least \<open>-L\<close> and a \<open>mu\<close> of at least 0, in a format that keeps 0, 1 and \<open>-L\<close>, every exponential
  of the row is at least 0 and the one at the maximum is 1, their sum is at least 1, its
  logarithm at least 0, and \<open>u[i]\<close> at least \<open>-L\<close> (possibly \<open>+inf\<close>).
\<close>

lemma first_u_fge:
  assumes m: "0 < m" and sigma: "0 < sigma"
    and k0: "keeps R 0" and k1: "keeps R 1" and kL: "keeps R (- L)"
    and E: "\<forall>j<m. fsub R (phi i j) (v j) = Fin (e j) \<and> - L \<le> e j"
    and mu: "fge mu 0"
  shows "fge (fadd R (fadd R mu (vmax R m phi v i))
            (fmul R (Fin sigma) (flog R (fsum R (vec m (\<lambda>j.
               fexp R (fdiv R (fsub R (fsub R (phi i j) (v j)) (vmax R m phi v i)) (Fin sigma)))))))) (- L)"
proof -
  let ?w = "Max (e ` {..<m})"
  have vm: "vmax R m phi v i = Fin ?w"
    using vmax_fin[OF m, of R phi i v e] E by simp
  have ne: "e ` {..<m} \<noteq> {}" "finite (e ` {..<m})"
    using m by auto
  from Max_in[OF ne(2,1)] obtain j0 where j0: "j0 < m" "e j0 = ?w"
    by auto
  have le: "e j \<le> ?w" if "j < m" for j
    using that by (intro Max_ge) auto
  let ?f = "\<lambda>j. fexp R (fdiv R (fsub R (fsub R (phi i j) (v j)) (Fin ?w)) (Fin sigma))"
  have f0: "fge (?f j) 0" if j: "j < m" for j
  proof -
    have "fle (R (e j + - ?w)) 0"
      by (rule keepsD2[OF k0]) (use le[OF j] in simp)
    then have "fle (fsub R (fsub R (phi i j) (v j)) (Fin ?w)) 0"
      using E j by (simp add: fsub_def)
    then show ?thesis
      by (rule exp_arg_fge[OF sigma k0])
  qed
  have f1: "fge (?f j0) 1"
    using exp_arg_max[OF sigma k0 k1] E j0 by (simp add: fsub_def)
  have S: "fge (fsum R (vec m ?f)) 1"
    by (rule fsum_fge1[OF k0 k1 _ j0(1), where f="?f"]) (use f0 f1 in auto)
  have T: "fge (fmul R (Fin sigma) (flog R (fsum R (vec m ?f)))) 0"
    by (rule sigma_log_fge[OF sigma k0 S])
  have w: "- L \<le> ?w"
    using E j0 by auto
  have "fge (fadd R mu (Fin ?w)) (- L)"
    by (rule fadd_fge[OF kL mu, of _ ?w]) (use w in simp_all)
  then have "fge (fadd R (fadd R mu (Fin ?w)) (fmul R (Fin sigma) (flog R (fsum R (vec m ?f))))) (- L)"
    by (rule fadd_fge[OF kL _ T]) simp
  then show ?thesis
    unfolding vm .
qed

lemma first_error_inf:
  assumes n: "0 < n" and m: "0 < m" and sigma: "0 < sigma"
    and k0: "keeps R 0" and k1: "keeps R 1" and kL: "keeps R (- L)"
    and E: "\<forall>i<n. \<forall>j<m. fsub R (phi i j) (v j) = Fin (e i j) \<and> - L \<le> e i j"
    and mu: "\<forall>i<n. fge (mu i) 0"
    and body: "lse_body R (tab n m phi) (vec n mu) (vec m nu) n sigma (vec m v) None = Inr (u, err, v')"
  shows "err = PInf"
proof -
  let ?U = "\<lambda>i. fadd R (fadd R (mu i) (vmax R m phi v i))
            (fmul R (Fin sigma) (flog R (fsum R (vec m (\<lambda>j.
               fexp R (fdiv R (fsub R (fsub R (phi i j) (v j)) (vmax R m phi v i)) (Fin sigma)))))))"
  have "fabs (fsub R (?U i) NInf) = PInf" if i: "i < n" for i
    by (rule fge_minus_inf[OF first_u_fge[OF m sigma k0 k1 kL, of phi i v "e i"]])
       (use E mu i in auto)
  then have "vec n (\<lambda>i. fabs (fsub R (?U i) NInf)) = vec n (\<lambda>i. PInf)"
    by (intro vec_cong) simp
  then have "lse_error R (vec n ?U) None = Inr PInf"
    using n by (simp add: lse_error_def max1_PInf)
  with lse_body_first[OF n m body] show ?thesis by simp
qed

lemma kept_entry:
  assumes "keeps R L" "keeps R (- L)" "\<bar>x\<bar> \<le> L"
  shows "\<exists>y. R x = Fin y \<and> - L \<le> y"
proof -
  have "- L \<le> x" "x \<le> L" using assms(3) by linarith+
  then have "fge (R x) (- L)" "fle (R x) L"
    using keepsD1[OF assms(2), of x] keepsD2[OF assms(1), of x] by blast+
  then show ?thesis
    by (cases "R x") auto
qed

lemma ipfp_lse_two_iterations:
  assumes n: "0 < n" and m: "0 < m" and sigma: "0 < sigma"
    and rw: "rounds_within R L" and phi: "bounded_on2 n m L phi" and p: "unit_on n p"
    and first: "fgt (fadd R (Fin tol) (Fin 1)) (Fin tol)" and maxite: "2 \<le> maxite"
  shows "\<exists>r. ipfp_lse R (fin2 n m phi) (fin1 n p) (vec m q) n m sigma tol maxite = Inr r
           \<and> 2 \<le> res_ite r"
proof -
  let ?Phi = "tab n m (\<lambda>i j. Fin (phi i j))"
  let ?mu = "\<lambda>i. fmul R (Fin (- sigma)) (flog R (Fin (p i)))"
  let ?nu = "\<lambda>i. fmul R (Fin (- sigma)) (flog R (q i))"
  let ?e0 = "fadd R (Fin tol) (Fin 1)"
  have k: "keeps R 0" "keeps R 1" "keeps R L" "keeps R (- L)"
    using rw by (simp_all add: rounds_within_def)
  have eqs: "neg_sigma_log R sigma (fin1 n p) = vec n ?mu"
    "neg_sigma_log R sigma (vec m q) = vec m ?nu"
    "replicate m (Fin 0) = vec m (\<lambda>i. Fin 0)" "fin2 n m phi = ?Phi"
    by (simp_all add: neg_sigma_log_def replicate_vec fin1_def fin2_def)
  obtain u1 e1 v1 where body:
    "lse_body R ?Phi (vec n ?mu) (vec m ?nu) n sigma (vec m (\<lambda>i. Fin 0)) None
       = Inr (vec n u1, e1, vec m v1)"
    using lse_body_shape[OF n m, of None] by blast
  define e where "e = (\<lambda>i j. case R (phi i j) of Fin y \<Rightarrow> y | _ \<Rightarrow> 0)"
  have E: "\<forall>i<n. \<forall>j<m. fsub R (Fin (phi i j)) (Fin 0) = Fin (e i j) \<and> - L \<le> e i j"
  proof (intro allI impI)
    fix i j assume "i < n" "j < m"
    then have "\<bar>phi i j\<bar> \<le> L" using phi by (simp add: bounded_on2_def)
    from kept_entry[OF k(3,4) this] show "fsub R (Fin (phi i j)) (Fin 0) = Fin (e i j) \<and> - L \<le> e i j"
      by (auto simp: fsub_def e_def)
  qed
  have mu: "\<forall>i<n. fge (?mu i) 0"
    using p neg_sigma_log_fge[OF sigma k(1)] by (simp add: unit_on_def)
  have e1: "e1 = PInf"
    by (rule first_error_inf[OF n m sigma k(1,2,4) E mu body])
  have step:
    "lse_loop R ?Phi (vec n ?mu) (vec m ?nu) n sigma tol maxite None (vec m (\<lambda>i. Fin 0)) ?e0 0
     = lse_loop R ?Phi (vec n ?mu) (vec m ?nu) n sigma tol maxite (Some (vec n u1)) (vec m v1)
         PInf (Suc 0)"
    using maxite first by (subst lse_loop.simps) (simp only: body e1, simp)
  have "fgt PInf (Fin tol) \<and> real (Suc 0) < maxite"
    using maxite by simp
  with lse_loop_shape[OF n m, of "Some (vec n u1)" R phi' ?mu ?nu sigma tol maxite v1 PInf "Suc 0" for phi']
  obtain u' v' e' ite' where loop:
    "lse_loop R ?Phi (vec n ?mu) (vec m ?nu) n sigma tol maxite (Some (vec n u1)) (vec m v1)
       PInf (Suc 0) = Inr (u', vec m v', e', ite')"
    "Suc 0 < ite'" "\<exists>w. u' = Some (vec n w)"
    by fastforce
  then obtain w where w: "u' = Some (vec n w)" by blast
  obtain x where "objective R sigma ?Phi
      (tab n m (\<lambda>i j. fexp R (fdiv R (fsub R (fsub R (Fin (phi i j)) (w i)) (v' j)) (Fin sigma))))
      = Inr x"
    using objective_shape[of n n R sigma m] by auto
  then show ?thesis
    unfolding ipfp_lse_def Let_def eqs step loop(1)
    using loop(2) w by (simp add: finish_def pi_of_def exp_over_def)
qed

section \<open>The linear-domain iteration and the spec\<close>

lemma ipfp1_loop_step:
  assumes "0 < n" "0 < m" "pos_on2 n m K" "pos_on n p" "pos_on m q" "pos_on m b"
  shows "ipfp1_loop exact (fin2 n m K) (fin1 n p) (fin1 m q) tol maxite A (col m b) (Fin e) ite
       = (if e \<le> tol \<or> maxite \<le> real ite then Inr (A, col m b, Fin e, ite)
          else ipfp1_loop exact (fin2 n m K) (fin1 n p) (fin1 m q) tol maxite
                 (Some (col n (spec_a m K p b))) (col m (spec_b n K q (spec_a m K p b)))
                 (Fin (spec_error n m K q (spec_a m K p b) b)) (Suc ite))"
  by (subst ipfp1_loop.simps) (auto simp: ipfp1_body_pos[OF assms] not_le)

lemma ipfp1_loop_step_any_error:
  assumes "0 < n" "0 < m" "pos_on2 n m K" "pos_on n p" "pos_on m q" "pos_on m b"
  shows "ipfp1_loop exact (fin2 n m K) (fin1 n p) (fin1 m q) tol maxite A (col m b) e ite
       = (if fgt e (Fin tol) \<and> real ite < maxite
          then ipfp1_loop exact (fin2 n m K) (fin1 n p) (fin1 m q) tol maxite
                 (Some (col n (spec_a m K p b))) (col m (spec_b n K q (spec_a m K p b)))
                 (Fin (spec_error n m K q (spec_a m K p b) b)) (Suc ite)
          else Inr (A, col m b, e, ite))"
  by (subst ipfp1_loop.simps) (simp add: ipfp1_body_pos[OF assms])

text \<open>
  The run of the matrix IPFP loop on the kernel of a \<open>Phi\<close> of shape \<open>(5, 3)\<close> with \<open>log 2\<close>
  in its first entry and 0 elsewhere (\<open>sigma = 1\<close>), \<open>p\<close> uniform and \<open>q = (1/2, 1/2, 0)\<close>:
  the first error is \<open>inf\<close>, the second NaN, and the loop ends after two iterations.
\<close>

lemma nan_error_run:
  "ipfp1_loop exact (fin2 5 3 (\<lambda>i j. if i = 0 \<and> j = 0 then 2 else 1)) (fin1 5 (\<lambda>i. 1 / 5))
       [Fin (1 / 2), Fin (1 / 2), Fin 0] (1 / 10 ^ 9) 1000000 None (two_d (replicate 3 (Fin 1)))
       (fadd exact (Fin (1 / 10 ^ 9)) (Fin 1)) 0
     = Inr (Some (Arr2 1 [[Fin (209 / 4500)], [Fin (209 / 3075)], [Fin (209 / 3075)],
                          [Fin (209 / 3075)], [Fin (209 / 3075)]]),
            Arr2 1 [[Fin (46125 / 33649)], [Fin (92250 / 58729)], [Fin 0]], NaN, 2)"
  by code_simp

text \<open>
  C4, as the claim states it, fails on its exit rule.  On the run above, whose \<open>q\<close> has a zero
  entry (which the preconditions allow), with \<open>tol = 1e-9\<close> and the cap \<open>10^6\<close>, the loop
  exits after two iterations with the error NaN: the error is not at most the tolerance, and
  the count has not reached the cap.
\<close>

theorem loop_exits_on_nan_error:
  "ipfp1_loop exact (exp_over exact 1 (fin2 5 3 (\<lambda>i j. if i = 0 \<and> j = 0 then ln 2 else 0)))
       (fin1 5 (\<lambda>i. 1 / 5)) [Fin (1 / 2), Fin (1 / 2), Fin 0] (1 / 10 ^ 9) 1000000 None
       (two_d (replicate 3 (Fin 1))) (fadd exact (Fin (1 / 10 ^ 9)) (Fin 1)) 0
     = Inr (Some (Arr2 1 [[Fin (209 / 4500)], [Fin (209 / 3075)], [Fin (209 / 3075)],
                          [Fin (209 / 3075)], [Fin (209 / 3075)]]),
            Arr2 1 [[Fin (46125 / 33649)], [Fin (92250 / 58729)], [Fin 0]], NaN, 2)
   \<and> \<not> fle NaN (1 / 10 ^ 9) \<and> \<not> 1000000 \<le> real 2"
proof -
  have "kernel 1 (\<lambda>i j. if i = 0 \<and> j = 0 then ln 2 else 0)
        = (\<lambda>(i::nat) (j::nat). if i = 0 \<and> j = 0 then 2 else 1)"
    by (auto simp: kernel_def fun_eq_iff)
  then have K: "exp_over exact 1 (fin2 5 3 (\<lambda>i j. if i = 0 \<and> j = 0 then ln 2 else 0))
                = fin2 5 3 (\<lambda>i j. if i = 0 \<and> j = 0 then 2 else 1)"
    by (simp add: exp_over_fin2)
  show ?thesis
    unfolding K nan_error_run by simp
qed

text \<open>
  C4, amended.  With a positive kernel, positive marginals and a positive \<open>b\<close>, one pass through
  the body of the matrix IPFP loop computes, in this order, \<open>a = p / (K b)\<close>, the error
  \<open>max_j |(\<Sum>_i a_i K_ij) b_j / q_j - 1|\<close> from the new \<open>a\<close> and the old \<open>b\<close>, and
  \<open>b = q / (K\<^sup>T a)\<close> from the new \<open>a\<close>.  The loop goes on exactly while the error is above the
  tolerance and the count is below the cap, whatever the error (infinite and NaN included):
  it returns its state unchanged when the error is not above the tolerance or the count has
  reached the cap, and otherwise goes on from the state the body computed.  For a finite error
  that is: it exits exactly when the error is at most the tolerance or the count has reached
  the cap, and the whole loop is the loop of the spec.  The same exit rule holds in every
  format for arrays of fitting shapes with any entries, where the body always returns; and on
  a NaN error the loop exits in every state, whatever the count.
\<close>

theorem ipfp1_iteration_and_exit:
  assumes "0 < n" "0 < m" "pos_on2 n m K" "pos_on n p" "pos_on m q" "pos_on m b"
  shows "ipfp1_body exact (fin2 n m K) (fin1 n p) (fin1 m q) (col m b)
           = Inr (col n (spec_a m K p b), Fin (spec_error n m K q (spec_a m K p b) b),
                  col m (spec_b n K q (spec_a m K p b)))
       \<and> ipfp1_loop exact (fin2 n m K) (fin1 n p) (fin1 m q) tol maxite A (col m b) err ite
           = (if fgt err (Fin tol) \<and> real ite < maxite
              then ipfp1_loop exact (fin2 n m K) (fin1 n p) (fin1 m q) tol maxite
                     (Some (col n (spec_a m K p b))) (col m (spec_b n K q (spec_a m K p b)))
                     (Fin (spec_error n m K q (spec_a m K p b) b)) (Suc ite)
              else Inr (A, col m b, err, ite))
       \<and> ipfp1_loop exact (fin2 n m K) (fin1 n p) (fin1 m q) tol maxite A (col m b) (Fin e) ite
           = (if e \<le> tol \<or> maxite \<le> real ite then Inr (A, col m b, Fin e, ite)
              else ipfp1_loop exact (fin2 n m K) (fin1 n p) (fin1 m q) tol maxite
                     (Some (col n (spec_a m K p b))) (col m (spec_b n K q (spec_a m K p b)))
                     (Fin (spec_error n m K q (spec_a m K p b) b)) (Suc ite))
       \<and> ipfp1_loop exact (fin2 n m K) (fin1 n p) (fin1 m q) tol maxite
             (map_option (col n) a) (col m b) (Fin e) ite
           = Inr (lin_state n m (lin_loop n m K p q tol maxite a b e ite))
       \<and> (\<exists>a1 e1 b1.
             ipfp1_body R (tab n m K') (vec n p') (vec m q') (tab m 1 b')
               = Inr (tab n 1 a1, e1, tab m 1 b1)
           \<and> ipfp1_loop R (tab n m K') (vec n p') (vec m q') tol maxite A (tab m 1 b') err ite
               = (if fgt err (Fin tol) \<and> real ite < maxite
                  then ipfp1_loop R (tab n m K') (vec n p') (vec m q') tol maxite
                         (Some (tab n 1 a1)) (tab m 1 b1) e1 (Suc ite)
                  else Inr (A, tab m 1 b', err, ite)))
       \<and> ipfp1_loop R Ka pa qa tol maxite A Ba NaN ite = Inr (A, Ba, NaN, ite)"
  using ipfp1_body_pos[OF assms] ipfp1_loop_step_any_error[OF assms] ipfp1_loop_step[OF assms]
    ipfp1_loop_refines[OF assms]
    ipfp1_loop_any_step[OF assms(2), of R n K' p' q' b' tol maxite A err ite]
    ipfp1_loop_nan[of R Ka pa qa tol maxite A Ba ite]
  by simp

theorem ipfp1_iteration_and_exit_witness:
  "ipfp1_body exact (fin2 2 1 (\<lambda>i j. 1)) (fin1 2 (\<lambda>i. 1 / 2)) (fin1 1 (\<lambda>j. 1)) (col 1 (\<lambda>j. 1))
     = Inr (col 2 (spec_a 1 (\<lambda>i j. 1) (\<lambda>i. 1 / 2) (\<lambda>j. 1)),
            Fin (spec_error 2 1 (\<lambda>i j. 1) (\<lambda>j. 1) (spec_a 1 (\<lambda>i j. 1) (\<lambda>i. 1 / 2) (\<lambda>j. 1)) (\<lambda>j. 1)),
            col 1 (spec_b 2 (\<lambda>i j. 1) (\<lambda>j. 1) (spec_a 1 (\<lambda>i j. 1) (\<lambda>i. 1 / 2) (\<lambda>j. 1))))
   \<and> spec_a 1 (\<lambda>i j. 1) (\<lambda>i. 1 / 2) (\<lambda>j. 1) 0 = 1 / 2
   \<and> spec_error 2 1 (\<lambda>i j. 1) (\<lambda>j. 1) (spec_a 1 (\<lambda>i j. 1) (\<lambda>i. 1 / 2) (\<lambda>j. 1)) (\<lambda>j. 1) = 0
   \<and> spec_b 2 (\<lambda>i j. 1) (\<lambda>j. 1) (spec_a 1 (\<lambda>i j. 1) (\<lambda>i. 1 / 2) (\<lambda>j. 1)) 0 = 1
   \<and> ipfp1_loop exact (fin2 2 1 (\<lambda>i j. 1)) (fin1 2 (\<lambda>i. 1 / 2)) (fin1 1 (\<lambda>j. 1)) (1 / 10 ^ 9) 1000000
        None (col 1 (\<lambda>j. 1)) NaN 0
     = Inr (None, col 1 (\<lambda>j. 1), NaN, 0)
   \<and> ipfp1_loop exact (fin2 2 1 (\<lambda>i j. 1)) (fin1 2 (\<lambda>i. 1 / 2)) (fin1 1 (\<lambda>j. 1)) (1 / 10 ^ 9) 1000000
        (map_option (col 2) None) (col 1 (\<lambda>j. 1)) (Fin (1 / 10 ^ 9 + 1)) 0
     = Inr (lin_state 2 1 (lin_loop 2 1 (\<lambda>i j. 1) (\<lambda>i. 1 / 2) (\<lambda>j. 1) (1 / 10 ^ 9) 1000000
              None (\<lambda>j. 1) (1 / 10 ^ 9 + 1) 0))
   \<and> ipfp1_loop float64 (fin2 5 3 (\<lambda>i j. 1)) (fin1 5 (\<lambda>i. 1 / 5)) [Fin (1 / 2), Fin (1 / 2), Fin 0]
        (1 / 10 ^ 9) 1000000 None (two_d (replicate 3 (Fin 1))) NaN 2
     = Inr (None, two_d (replicate 3 (Fin 1)), NaN, 2)"
proof -
  have h: "0 < (2::nat)" "0 < (1::nat)" "pos_on2 2 1 (\<lambda>i j. 1)" "pos_on 2 (\<lambda>i. 1 / 2)"
    "pos_on 1 (\<lambda>j. 1)" "pos_on 1 (\<lambda>j. 1)"
    by (simp_all add: pos_on_def pos_on2_def)
  note T = ipfp1_iteration_and_exit[OF h, where tol="1 / 10 ^ 9" and maxite=1000000 and A=None
      and err=NaN and ite=0 and e="1 / 10 ^ 9 + 1" and a=None]
  note U = ipfp1_iteration_and_exit[OF h, where tol="1 / 10 ^ 9" and maxite=1000000 and A=None
      and ite=2 and R=float64 and Ka="fin2 5 3 (\<lambda>i j. 1)" and pa="fin1 5 (\<lambda>i. 1 / 5)"
      and qa="[Fin (1 / 2), Fin (1 / 2), Fin 0]" and Ba="two_d (replicate 3 (Fin 1))"]
  have a: "spec_a 1 (\<lambda>i j. 1) (\<lambda>i. 1 / 2) (\<lambda>j. 1) = (\<lambda>i. 1 / 2)"
    by (simp add: spec_a_def fun_eq_iff)
  have s1: "spec_a 1 (\<lambda>i j. 1) (\<lambda>i. 1 / 2) (\<lambda>j. 1) 0 = 1 / 2"
    unfolding a by simp
  have s2: "spec_error 2 1 (\<lambda>i j. 1) (\<lambda>j. 1) (spec_a 1 (\<lambda>i j. 1) (\<lambda>i. 1 / 2) (\<lambda>j. 1)) (\<lambda>j. 1) = 0"
    unfolding a by (simp add: spec_error_def eval_nat_numeral lessThan_Suc)
  have s3: "spec_b 2 (\<lambda>i j. 1) (\<lambda>j. 1) (spec_a 1 (\<lambda>i j. 1) (\<lambda>i. 1 / 2) (\<lambda>j. 1)) 0 = 1"
    unfolding a by (simp add: spec_b_def eval_nat_numeral)
  have c1: "ipfp1_body exact (fin2 2 1 (\<lambda>i j. 1)) (fin1 2 (\<lambda>i. 1 / 2)) (fin1 1 (\<lambda>j. 1)) (col 1 (\<lambda>j. 1))
     = Inr (col 2 (spec_a 1 (\<lambda>i j. 1) (\<lambda>i. 1 / 2) (\<lambda>j. 1)),
            Fin (spec_error 2 1 (\<lambda>i j. 1) (\<lambda>j. 1) (spec_a 1 (\<lambda>i j. 1) (\<lambda>i. 1 / 2) (\<lambda>j. 1)) (\<lambda>j. 1)),
            col 1 (spec_b 2 (\<lambda>i j. 1) (\<lambda>j. 1) (spec_a 1 (\<lambda>i j. 1) (\<lambda>i. 1 / 2) (\<lambda>j. 1))))"
    using T by blast
  have c2: "ipfp1_loop exact (fin2 2 1 (\<lambda>i j. 1)) (fin1 2 (\<lambda>i. 1 / 2)) (fin1 1 (\<lambda>j. 1)) (1 / 10 ^ 9) 1000000
        None (col 1 (\<lambda>j. 1)) NaN 0 = Inr (None, col 1 (\<lambda>j. 1), NaN, 0)"
    using conjunct1[OF conjunct2[OF T]] by simp
  have c3: "ipfp1_loop exact (fin2 2 1 (\<lambda>i j. 1)) (fin1 2 (\<lambda>i. 1 / 2)) (fin1 1 (\<lambda>j. 1)) (1 / 10 ^ 9) 1000000
        (map_option (col 2) None) (col 1 (\<lambda>j. 1)) (Fin (1 / 10 ^ 9 + 1)) 0
     = Inr (lin_state 2 1 (lin_loop 2 1 (\<lambda>i j. 1) (\<lambda>i. 1 / 2) (\<lambda>j. 1) (1 / 10 ^ 9) 1000000
              None (\<lambda>j. 1) (1 / 10 ^ 9 + 1) 0))"
    using T by blast
  have c4: "ipfp1_loop float64 (fin2 5 3 (\<lambda>i j. 1)) (fin1 5 (\<lambda>i. 1 / 5)) [Fin (1 / 2), Fin (1 / 2), Fin 0]
        (1 / 10 ^ 9) 1000000 None (two_d (replicate 3 (Fin 1))) NaN 2
     = Inr (None, two_d (replicate 3 (Fin 1)), NaN, 2)"
    using U by blast
  show ?thesis
    using c1 s1 s2 s3 c2 c3 c4 by blast
qed

section \<open>The arguments of the exponentials of the log-sum-exp cell\<close>


lemma pot_exp': "sigma \<noteq> 0 \<Longrightarrow> pot sigma (\<lambda>j. exp (- (v j / sigma))) = v"
  by (simp add: pot_def fun_eq_iff)

lemma pos_exp: "pos_on m (\<lambda>j. exp (f j))"
  by (simp add: pos_on_def)




section \<open>Column sums after an iteration, and the first error of the log-sum-exp loop\<close>

lemma lin_loop_total:
  "\<exists>a' b' e' ite'. lin_loop n m K p q tol maxite a b e ite = (a', b', e', ite')"
  by (cases "lin_loop n m K p q tol maxite a b e ite") auto

lemma lse_loop_r_total:
  "\<exists>a' b' e' ite'. lse_loop_r n m K p q sigma tol maxite a b e ite = (a', b', e', ite')"
  by (cases "lse_loop_r n m K p q sigma tol maxite a b e ite") auto

lemma ipfp1_loop_col_sums:
  assumes "0 < n" "0 < m" "sigma \<noteq> 0" "pos_on n p" "pos_on m q" "0 < maxite"
  shows "\<exists>A B e ite. ipfp1_loop exact (exp_over exact sigma (fin2 n m phi)) (fin1 n p) (fin1 m q)
             tol maxite None (two_d (replicate m (Fin 1))) (fadd exact (Fin tol) (Fin 1)) 0
           = Inr (Some A, B, e, ite)
         \<and> (\<exists>P. implied_pi exact (exp_over exact sigma (fin2 n m phi)) A B = Inr P
                \<and> sum_axis0 exact P = fin1 m q)"
proof -
  let ?K = "kernel sigma phi"
  obtain a' b' e' ite' where
    fin: "lin_loop n m ?K p q tol maxite None (\<lambda>j. 1) (tol + 1) 0 = (a', b', e', ite')"
    using lin_loop_total by blast
  from ipfp1_loop_run[OF assms(1,2) kernel_pos assms(4,5,6) fin]
  obtain a where r: "pos_on n a" "b' = spec_b n ?K q a"
    and loop: "ipfp1_loop exact (fin2 n m ?K) (fin1 n p) (fin1 m q) tol maxite None
             (two_d (replicate m (Fin 1))) (fadd exact (Fin tol) (Fin 1)) 0
           = Inr (Some (col n a), col m b', Fin e', ite')"
    by blast
  have "sum_axis0 exact (fin2 n m (\<lambda>i j. ?K i j * a i * b' j)) = fin1 m q"
    unfolding r(2) by (rule col_sums_q[OF assms(1) kernel_pos r(1)])
  then show ?thesis
    using loop implied_pi_exact[of n m ?K a b'] by (simp only: exp_over_fin2[OF assms(3)]) blast
qed

lemma ipfp1_col_sums:
  assumes "0 < m" "sigma \<noteq> 0" "pos_on 5 p" "pos_on m q" "0 < maxite"
  shows "\<exists>r. ipfp1 exact (fin2 5 m phi) (fin1 5 p) (fin1 m q) m sigma tol maxite = Inr r
           \<and> sum_axis0 exact (res_pi r) = fin1 m q"
proof -
  let ?K = "kernel sigma phi"
  obtain a' b' e' ite' where
    fin: "lin_loop 5 m ?K p q tol maxite None (\<lambda>j. 1) (tol + 1) 0 = (a', b', e', ite')"
    using lin_loop_total by blast
  from ipfp1_exact[OF assms fin]
  obtain a r where r: "pos_on 5 a" "b' = spec_b 5 ?K q a"
    "ipfp1 exact (fin2 5 m phi) (fin1 5 p) (fin1 m q) m sigma tol maxite = Inr r"
    "res_pi r = fin2 5 m (\<lambda>i j. ?K i j * a i * b' j)"
    by fastforce
  have "sum_axis0 exact (fin2 5 m (\<lambda>i j. ?K i j * a i * b' j)) = fin1 m q"
    unfolding r(2) by (rule col_sums_q[OF _ kernel_pos r(1)]) simp
  then show ?thesis
    using r(3,4) by auto
qed

lemma ipfp_lse_col_sums:
  assumes "0 < n" "0 < m" "sigma \<noteq> 0" "pos_on n p" "pos_on m q" "0 < maxite"
  shows "\<exists>r. ipfp_lse exact (fin2 n m phi) (fin1 n p) (fin1 m q) n m sigma tol maxite = Inr r
           \<and> sum_axis0 exact (res_pi r) = fin1 m q"
proof -
  let ?K = "kernel sigma phi"
  obtain a' b' e' ite' where
    fin: "lse_loop_r n m ?K p q sigma tol maxite None (\<lambda>j. 1) (Fin (tol + 1)) 0 = (a', b', e', ite')"
    using lse_loop_r_total by blast
  from ipfp_lse_exact[OF assms fin]
  obtain a r where r: "pos_on n a" "b' = spec_b n ?K q a"
    "ipfp_lse exact (fin2 n m phi) (fin1 n p) (fin1 m q) n m sigma tol maxite = Inr r"
    "res_pi r = fin2 n m (\<lambda>i j. ?K i j * a i * b' j)"
    by fastforce
  have "sum_axis0 exact (fin2 n m (\<lambda>i j. ?K i j * a i * b' j)) = fin1 m q"
    unfolding r(2) by (rule col_sums_q[OF assms(1) kernel_pos r(1)])
  then show ?thesis
    using r(3,4) by auto
qed

text \<open>
  C8.  In exact arithmetic, for every finite \<open>Phi\<close> of shape \<open>(n, m)\<close>, \<open>sigma \<noteq> 0\<close>, positive
  \<open>p\<close> and \<open>q\<close>, every tolerance and every cap above zero: the matrix IPFP loop ends in a
  state \<open>A\<close>, \<open>B\<close> whose implied coupling \<open>(K * A) * B.T\<close> has the column sums \<open>q\<close>, exactly;
  with five rows the coupling the cell returns has the column sums \<open>q\<close>; and the coupling
  the log-sum-exp cell returns has the column sums \<open>q\<close>.  The tolerance may be negative, so
  that the loop runs up to the cap: the statement holds after every completed iteration.
\<close>

theorem column_sums_equal_q_after_every_iteration:
  assumes "0 < n" "0 < m" "sigma \<noteq> 0" "pos_on n p" "pos_on m q" "pos_on 5 p5" "0 < maxite"
  shows "(\<exists>A B e ite. ipfp1_loop exact (exp_over exact sigma (fin2 n m phi)) (fin1 n p) (fin1 m q)
             tol maxite None (two_d (replicate m (Fin 1))) (fadd exact (Fin tol) (Fin 1)) 0
           = Inr (Some A, B, e, ite)
         \<and> (\<exists>P. implied_pi exact (exp_over exact sigma (fin2 n m phi)) A B = Inr P
                \<and> sum_axis0 exact P = fin1 m q))
       \<and> (\<exists>r. ipfp1 exact (fin2 5 m phi5) (fin1 5 p5) (fin1 m q) m sigma tol maxite = Inr r
                \<and> sum_axis0 exact (res_pi r) = fin1 m q)
       \<and> (\<exists>r. ipfp_lse exact (fin2 n m phi) (fin1 n p) (fin1 m q) n m sigma tol maxite = Inr r
                \<and> sum_axis0 exact (res_pi r) = fin1 m q)"
  using ipfp1_loop_col_sums[OF assms(1-5,7)] ipfp1_col_sums[OF assms(2,3,6,5,7)]
    ipfp_lse_col_sums[OF assms(1-5,7)]
  by blast

theorem column_sums_equal_q_after_every_iteration_witness:
  "(\<exists>A B e ite. ipfp1_loop exact (exp_over exact (1 / 10) (fin2 2 3 (\<lambda>i j. real (i + j))))
        (fin1 2 (\<lambda>i. 1 / 2)) (fin1 3 (\<lambda>j. 1 / 3))
        (- 1) 3 None (two_d (replicate 3 (Fin 1))) (fadd exact (Fin (- 1)) (Fin 1)) 0
      = Inr (Some A, B, e, ite)
    \<and> (\<exists>P. implied_pi exact (exp_over exact (1 / 10) (fin2 2 3 (\<lambda>i j. real (i + j)))) A B = Inr P
           \<and> sum_axis0 exact P = fin1 3 (\<lambda>j. 1 / 3)))
   \<and> (\<exists>r. ipfp1 exact (fin2 5 3 (\<lambda>i j. real (i * j))) (fin1 5 (\<lambda>i. 1 / 5)) (fin1 3 (\<lambda>j. 1 / 3)) 3
          (1 / 10) (- 1) 3 = Inr r
        \<and> sum_axis0 exact (res_pi r) = fin1 3 (\<lambda>j. 1 / 3))
   \<and> (\<exists>r. ipfp_lse exact (fin2 2 3 (\<lambda>i j. real (i + j))) (fin1 2 (\<lambda>i. 1 / 2)) (fin1 3 (\<lambda>j. 1 / 3))
          2 3 (1 / 10) (- 1) 3 = Inr r
        \<and> sum_axis0 exact (res_pi r) = fin1 3 (\<lambda>j. 1 / 3))"
proof -
  have h: "0 < (2::nat)" "0 < (3::nat)" "(1 / 10 :: real) \<noteq> 0" "pos_on 2 (\<lambda>i. 1 / 2)"
    "pos_on 3 (\<lambda>j. 1 / 3)" "pos_on 5 (\<lambda>i. 1 / 5)" "0 < (3::real)"
    by (simp_all add: pos_on_def)
  show ?thesis
    by (rule column_sums_equal_q_after_every_iteration[OF h])
qed

text \<open>
  C10, as the claim states it, fails for a large tolerance.  In binary64 the initial
  \<open>error = tol + 1\<close> at \<open>tol = 1e16\<close> is \<open>1e16\<close>, which is not above \<open>tol\<close>: with
  \<open>Phi = [[1, 0], [0, 1]]\<close>, \<open>p = q = (1/2, 1/2)\<close>, \<open>sigma = 1\<close> and a cap of \<open>1e6\<close> the loop
  ends where it starts, with \<open>ite = 0\<close> and no \<open>u\<close>, and the cell raises \<open>NameError\<close> when it
  reads \<open>u\<close>.
\<close>

theorem large_tolerance_skips_the_loop:
  "lse_loop float64 (fin2 2 2 (k2 1 0)) (neg_sigma_log float64 1 (fin1 2 (\<lambda>i. 1 / 2)))
       (neg_sigma_log float64 1 (fin1 2 (\<lambda>j. 1 / 2))) 2 1 (10 ^ 16) 1000000 None
       (replicate 2 (Fin 0)) (fadd float64 (Fin (10 ^ 16)) (Fin 1)) 0
     = Inr (None, replicate 2 (Fin 0), Fin (10 ^ 16), 0)
   \<and> ipfp_lse float64 (fin2 2 2 (k2 1 0)) (fin1 2 (\<lambda>i. 1 / 2)) (fin1 2 (\<lambda>j. 1 / 2)) 2 2 1
        (10 ^ 16) 1000000 = Inl NameError"
proof -
  have s: "\<not> (fgt (fadd float64 (Fin (10 ^ 16)) (Fin 1)) (Fin (10 ^ 16)) \<and> 0 < (1000000::real))"
    unfolding float64_big_tol by simp
  show ?thesis
    using ipfp_lse_skipped[OF s] unfolding float64_big_tol by blast
qed

text \<open>
  C10, amended.  The first error of the log-sum-exp loop is computed against
  \<open>uprec = -inf\<close> and is \<open>+inf\<close> for every finite \<open>u\<close>.  In binary64 arithmetic (the format
  \<open>float64\<close>), for every finite \<open>Phi\<close> of shape \<open>(n, m)\<close> (entries of magnitude up to the largest
  finite number), \<open>sigma > 0\<close>, every \<open>p\<close> with entries between 0 and 1 (a zero entry gives
  \<open>u = +inf\<close> there), every \<open>q\<close> of length \<open>m\<close> whatever its entries, every tolerance of
  magnitude below \<open>2^53\<close> (so that the initial \<open>error = tol + 1\<close> is above \<open>tol\<close> and the loop
  is entered) and every cap of at least two, the cell returns with an iteration count of at
  least two.
\<close>

theorem lse_runs_at_least_two_iterations:
  assumes "0 < n" "0 < m" "0 < sigma" "unit_on n p" "bounded_on2 n m max_float64 phi"
    "\<bar>tol\<bar> < 2 ^ 53" "2 \<le> maxite"
  shows "lse_error float64 (fin1 n u) None = Inr PInf
       \<and> (\<exists>r. ipfp_lse float64 (fin2 n m phi) (fin1 n p) (vec m q) n m sigma tol maxite = Inr r
                \<and> 2 \<le> res_ite r)"
proof -
  have "lse_error float64 (fin1 n u) None = Inr PInf"
    using assms(1) by (simp add: lse_error_def fin1_def fsub_def max1_PInf)
  with ipfp_lse_two_iterations[OF assms(1-3) float64_rounds_within assms(5,4)
      float64_add_one[OF assms(6)] assms(7)]
  show ?thesis by simp
qed

theorem lse_runs_at_least_two_iterations_witness:
  "lse_error float64 (fin1 2 (\<lambda>i. 0)) None = Inr PInf
   \<and> (\<exists>r. ipfp_lse float64 (fin2 2 1 (\<lambda>i j. 0)) (fin1 2 (v2 0 1)) (vec 1 (\<lambda>j. Fin 1)) 2 1 (1 / 1024)
          (1 / 2 ^ 30) 1000000 = Inr r
        \<and> 2 \<le> res_ite r)"
proof -
  have h: "0 < (2::nat)" "0 < (1::nat)" "0 < (1 / 1024 :: real)" "unit_on 2 (v2 0 1)"
    "bounded_on2 2 1 max_float64 (\<lambda>i j. 0)" "\<bar>1 / 2 ^ 30 :: real\<bar> < 2 ^ 53"
    "2 \<le> (1000000::real)"
    by (simp_all add: unit_on_def bounded_on2_def max_float64_def v2_def)
  show ?thesis
    by (rule lse_runs_at_least_two_iterations[OF h])
qed

section \<open>Gauge invariance\<close>




section \<open>The hard-coded row count, and the absence of input validation\<close>

lemma bc11_vec:
  "bc11 g (vec a f) (vec b f') =
     (case bdim a b of
        None \<Rightarrow> Inl ValueError
      | Some n \<Rightarrow> Inr (vec n (\<lambda>i. g (f (bidx a i)) (f' (bidx b i)))))"
  by (auto simp: bc11_def bidx_bound split: option.splits intro!: vec_cong)

lemma lse_body_mismatch:
  assumes "0 < n" "0 < m" "bdim m' m = None"
  shows "lse_body R (tab n m phi) (vec n mu) (vec m' nu) n sigma (vec m v) None = Inl ValueError"
  using assms
  by (simp add: lse_body_def lse_u_args_def lse_v_args_def max_axis0_tab sigma_log_def
      lse_error_def max1_vec bc11_vec)

lemma ipfp_lse_mismatch:
  assumes "0 < n" "0 < m" "bdim m' m = None" "0 < maxite"
    and first: "fgt (fadd R (Fin tol) (Fin 1)) (Fin tol)"
  shows "ipfp_lse R (tab n m phi) (vec n p) (vec m' q) n m sigma tol maxite = Inl ValueError"
proof -
  have "lse_loop R (tab n m phi) (vec n mu) (vec m' nu) n sigma tol maxite None (vec m v)
          (fadd R (Fin tol) (Fin 1)) 0 = Inl ValueError" for mu nu v
    using assms(4) first by (subst lse_loop.simps) (simp add: lse_body_mismatch[OF assms(1-3)])
  then show ?thesis
    by (simp add: ipfp_lse_def neg_sigma_log_def replicate_vec)
qed




text \<open>
  C6, as the claim states it, fails: with a negative entry in \<open>p\<close>, \<open>p\<close> and \<open>q\<close> that do not
  sum to 1, \<open>sigma = -1\<close> and \<open>tol = 0\<close>, both cells enter their loop, iterate and return a
  result.
\<close>

theorem invalid_input_is_iterated_on:
  "(\<exists>r. ipfp_lse exact (fin2 2 1 (\<lambda>i j. 0)) (fin1 2 (\<lambda>i. if i = 0 then - 1 / 2 else 2))
         (fin1 1 (\<lambda>j. 3)) 2 1 (- 1) 0 1 = Inr r \<and> 1 \<le> res_ite r)
   \<and> (\<exists>r. ipfp1 exact (fin2 5 1 (\<lambda>i j. 0)) (fin1 5 (\<lambda>i. if i = 0 then - 1 / 2 else 2))
         (fin1 1 (\<lambda>j. 3)) 1 (- 1) 0 1 = Inr r \<and> 1 \<le> res_ite r)"
  using ipfp_lse_shape[of 2 1 1 "\<lambda>i j. Fin 0" "\<lambda>i. Fin (if i = 0 then - 1 / 2 else 2)" "\<lambda>j. Fin 3" "- 1" 0]
    ipfp1_shape[of 1 1 5 "\<lambda>i j. Fin 0" "\<lambda>i. Fin (if i = 0 then - 1 / 2 else 2)" "\<lambda>j. Fin 3" "- 1" 0]
  by (auto simp: fin2_def fin1_def)

text \<open>
  C6, amended.  The cells validate nothing.  In binary64 arithmetic (the format \<open>float64\<close>),
  for arrays of fitting shapes (\<open>Phi\<close> of shape \<open>(n, m)\<close> with \<open>n, m > 0\<close>, \<open>p\<close> of length
  \<open>n\<close>, \<open>q\<close> of length \<open>m\<close>; five rows for the matrix IPFP cell), whatever their entries,
  every \<open>sigma\<close>, every \<open>tol\<close> of magnitude below \<open>2^53\<close> (positive or not) and a cap above
  zero, both cells enter their loop, complete at least one iteration and return a result.  A
  \<open>q\<close> whose length broadcasting cannot reconcile with \<open>m\<close> makes the log-sum-exp cell raise
  numpy's \<open>ValueError\<close>, from inside its first iteration.  The one way a cell stops before
  its first iteration is not a validation either: when the initial \<open>error = tol + 1\<close>, as the
  format computes it, is not above \<open>tol\<close>, the loop is skipped, for valid and invalid inputs
  alike, and the cell raises \<open>NameError\<close> at the first name that only the loop binds.
\<close>

theorem no_input_validation:
  assumes "0 < n" "0 < m" "0 < maxite" "\<bar>tol\<bar> < 2 ^ 53"
  shows "(\<exists>r. ipfp_lse float64 (tab n m phi) (vec n p) (vec m q) n m sigma tol maxite = Inr r
              \<and> 1 \<le> res_ite r)
       \<and> (\<exists>r. ipfp1 float64 (tab 5 m phi5) (vec 5 p5) (vec m q) m sigma tol maxite = Inr r
              \<and> 1 \<le> res_ite r)
       \<and> (bdim m' m = None \<longrightarrow>
            ipfp_lse float64 (tab n m phi) (vec n p) (vec m' q') n m sigma tol maxite = Inl ValueError)
       \<and> (\<not> fgt (fadd R (Fin tol') (Fin 1)) (Fin tol') \<longrightarrow>
            ipfp_lse R Phi' pa qa nbX nbY sigma' tol' maxite' = Inl NameError
          \<and> ipfp1 R Phi' pa qa nbY sigma' tol' maxite' = Inl NameError)"
proof -
  note first = float64_add_one[OF assms(4)]
  show ?thesis
    using ipfp_lse_shape_any[OF assms(1-3) first, of phi p q sigma]
      ipfp1_shape_any[OF assms(2,3) first, of 5 phi5 p5 q sigma]
      ipfp_lse_mismatch[OF assms(1,2) _ assms(3) first, of m' phi p q' sigma]
      ipfp_lse_skipped(2)[of R tol' maxite' Phi' pa qa nbX nbY sigma']
      ipfp1_skipped[of R tol' maxite' Phi' pa qa nbY sigma']
    by auto
qed

theorem no_input_validation_witness:
  "(\<exists>r. ipfp_lse float64 (tab 2 3 (\<lambda>i j. NaN)) (vec 2 (\<lambda>i. Fin (- 1))) (vec 3 (\<lambda>j. PInf)) 2 3 0 (- 1) 10
           = Inr r \<and> 1 \<le> res_ite r)
   \<and> (\<exists>r. ipfp1 float64 (tab 5 3 (\<lambda>i j. Fin 0)) (vec 5 (\<lambda>i. Fin 7)) (vec 3 (\<lambda>j. PInf)) 3 0 (- 1) 10
           = Inr r \<and> 1 \<le> res_ite r)
   \<and> ipfp_lse float64 (tab 2 3 (\<lambda>i j. NaN)) (vec 2 (\<lambda>i. Fin (- 1))) (vec 2 (\<lambda>j. Fin (1 / 2))) 2 3 0 (- 1) 10
        = Inl ValueError
   \<and> ipfp_lse float64 (fin2 2 2 (k2 1 0)) (fin1 2 (\<lambda>i. 1 / 2)) (fin1 2 (\<lambda>j. 1 / 2)) 2 2 1 (10 ^ 16) 1000000
        = Inl NameError
   \<and> ipfp1 float64 (fin2 2 2 (k2 1 0)) (fin1 2 (\<lambda>i. 1 / 2)) (fin1 2 (\<lambda>j. 1 / 2)) 2 1 (10 ^ 16) 1000000
        = Inl NameError"
proof -
  have h: "0 < (2::nat)" "0 < (3::nat)" "0 < (10::real)" "\<bar>- 1 :: real\<bar> < 2 ^ 53" by simp_all
  have b: "bdim 2 3 = None" by (simp add: bdim_def)
  have s: "\<not> fgt (fadd float64 (Fin (10 ^ 16)) (Fin 1)) (Fin (10 ^ 16))"
    unfolding float64_big_tol by simp
  show ?thesis
    using no_input_validation[OF h, of "\<lambda>i j. NaN" "\<lambda>i. Fin (- 1)" "\<lambda>j. PInf" 0
        "\<lambda>i j. Fin 0" "\<lambda>i. Fin 7" 2 "\<lambda>j. Fin (1 / 2)" float64 "10 ^ 16"
        "fin2 2 2 (k2 1 0)" "fin1 2 (\<lambda>i. 1 / 2)" "fin1 2 (\<lambda>j. 1 / 2)" 2 2 1 1000000] b s
    by simp
qed

section \<open>C5: the three cells compared\<close>

lemma log_lse_same_updates:
  assumes "0 < n" "0 < m" "sigma \<noteq> 0" "pos_on n p" "pos_on m q"
  shows "\<exists>u e1 e2 v'.
           log_body exact (fin2 n m phi) (neg_sigma_log exact sigma (fin1 n p))
             (neg_sigma_log exact sigma (fin1 m q)) (fin1 m q) n sigma (fin1 m v) = Inr (u, e1, v')
         \<and> lse_body exact (fin2 n m phi) (neg_sigma_log exact sigma (fin1 n p))
             (neg_sigma_log exact sigma (fin1 m q)) n sigma (fin1 m v) (map_option (fin1 n) w)
           = Inr (u, e2, v')"
proof -
  let ?b = "\<lambda>j. exp (- (v j / sigma))"
  let ?w = "map_option (\<lambda>w i. exp (- (w i / sigma))) w"
  have w: "map_option (\<lambda>a. fin1 n (pot sigma a)) ?w = map_option (fin1 n) w"
    using assms(3) by (cases w) (simp_all add: pot_exp')
  have b: "pos_on m ?b" by (rule pos_exp)
  show ?thesis
    using lse_body_exact[OF assms(1-3) assms(4,5) b, of phi ?w]
      log_body_exact[OF assms(1-3) assms(4,5) b, of phi]
    by (simp only: neg_sigma_log_exact[OF assms(4)] neg_sigma_log_exact[OF assms(5)] w
        pot_exp'[OF assms(3)]) blast
qed

lemma flatten_col_fin: "flatten (col n a) = fin1 n a"
  by (simp add: col_def fin1_def)

lemma ipfp1_ipfp_log_agree:
  assumes "0 < m" "sigma \<noteq> 0" "pos_on 5 p" "pos_on m q" "0 < maxite"
  shows "\<exists>r1 r2. ipfp1 exact (fin2 5 m phi) (fin1 5 p) (fin1 m q) m sigma tol maxite = Inr r1
           \<and> ipfp_log exact (fin2 5 m phi) (fin1 5 p) (fin1 m q) 5 m sigma tol maxite = Inr r2
           \<and> res_pi r1 = res_pi r2 \<and> res_val r1 = res_val r2 \<and> res_ite r1 = res_ite r2
           \<and> res_status r1 = res_status r2
           \<and> flatten (res_u r1) = res_u r2 \<and> flatten (res_v r1) = res_v r2"
proof -
  let ?K = "kernel sigma phi"
  obtain a' b' e' ite' where
    fin: "lin_loop 5 m ?K p q tol maxite None (\<lambda>j. 1) (tol + 1) 0 = (a', b', e', ite')"
    using lin_loop_total by blast
  have n: "0 < (5::nat)" by simp
  from ipfp1_exact[OF assms fin] ipfp_log_exact[OF n assms fin]
  show ?thesis
    by (fastforce simp: flatten_col_fin)
qed

lemma lse_err_above:
  assumes "0 < n" "tol < 0"
  shows "fgt (lse_err n sigma a aprev) (Fin tol)"
proof (cases aprev)
  case None
  then show ?thesis by (simp add: lse_err_def)
next
  case (Some a0)
  have "\<bar>pot sigma a 0 - pot sigma a0 0\<bar> \<le> Max ((\<lambda>i. \<bar>pot sigma a i - pot sigma a0 i\<bar>) ` {..<n})"
    using assms(1) by (intro Max_ge) auto
  then have "0 \<le> Max ((\<lambda>i. \<bar>pot sigma a i - pot sigma a0 i\<bar>) ` {..<n})"
    by linarith
  with Some assms(2) show ?thesis by (simp add: lse_err_def)
qed

lemma same_iterates:
  assumes "0 < n" "0 < m" "tol < 0" "fgt e1 (Fin tol)" "tol < e"
  shows "fst (lse_loop_r n m K p q sigma tol maxite a b e1 ite)
           = fst (lin_loop n m K p q tol maxite a b e ite)
       \<and> fst (snd (lse_loop_r n m K p q sigma tol maxite a b e1 ite))
           = fst (snd (lin_loop n m K p q tol maxite a b e ite))
       \<and> snd (snd (snd (lse_loop_r n m K p q sigma tol maxite a b e1 ite)))
           = snd (snd (snd (lin_loop n m K p q tol maxite a b e ite)))"
  using assms
proof (induction n m K p q tol maxite a b e ite arbitrary: e1 rule: lin_loop.induct)
  case (1 n m K p q tol maxite a b e ite)
  show ?case
  proof (cases "real ite < maxite")
    case True
    let ?a = "spec_a m K p b"
    let ?b = "spec_b n K q ?a"
    have e': "tol < spec_error n m K q ?a b"
      using spec_error_nonneg[OF "1.prems"(2), where n=n and K=K and q=q and a="?a" and b=b] "1.prems"(3)
      by linarith
    have l: "lin_loop n m K p q tol maxite a b e ite
           = lin_loop n m K p q tol maxite (Some ?a) ?b (spec_error n m K q ?a b) (Suc ite)"
      using True "1.prems"(5) by (subst lin_loop.simps) simp
    have r: "lse_loop_r n m K p q sigma tol maxite a b e1 ite
           = lse_loop_r n m K p q sigma tol maxite (Some ?a) ?b (lse_err n sigma ?a a) (Suc ite)"
      using True "1.prems"(4) by (subst lse_loop_r.simps) simp
    show ?thesis
      unfolding l r
      using True "1.prems" e' lse_err_above[OF "1.prems"(1,3)]
      by (intro "1.IH") auto
  next
    case False
    then show ?thesis
      by (subst lse_loop_r.simps, subst lin_loop.simps, subst (2) lse_loop_r.simps,
          subst (2) lin_loop.simps, subst (3) lse_loop_r.simps, subst (3) lin_loop.simps) simp
  qed
qed

lemma log_lse_same_at_cap:
  assumes "0 < n" "0 < m" "sigma \<noteq> 0" "pos_on n p" "pos_on m q" "0 < maxite" "tol < 0"
  shows "\<exists>r2 r3. ipfp_log exact (fin2 n m phi) (fin1 n p) (fin1 m q) n m sigma tol maxite = Inr r2
           \<and> ipfp_lse exact (fin2 n m phi) (fin1 n p) (fin1 m q) n m sigma tol maxite = Inr r3
           \<and> res_pi r2 = res_pi r3 \<and> res_val r2 = res_val r3 \<and> res_u r2 = res_u r3
           \<and> res_v r2 = res_v r3 \<and> res_ite r2 = res_ite r3 \<and> res_status r2 = res_status r3"
proof -
  let ?K = "kernel sigma phi"
  obtain a2 b2 e2 i2 where
    lin: "lin_loop n m ?K p q tol maxite None (\<lambda>j. 1) (tol + 1) 0 = (a2, b2, e2, i2)"
    using lin_loop_total by blast
  obtain a3 b3 e3 i3 where
    lse: "lse_loop_r n m ?K p q sigma tol maxite None (\<lambda>j. 1) (Fin (tol + 1)) 0 = (a3, b3, e3, i3)"
    using lse_loop_r_total by blast
  have "a3 = a2 \<and> b3 = b2 \<and> i3 = i2"
    using same_iterates[OF assms(1,2,7), of "Fin (tol + 1)" "tol + 1" ?K p q sigma maxite None "\<lambda>j. 1" 0]
    by (simp add: lin lse)
  with lse have lse': "lse_loop_r n m ?K p q sigma tol maxite None (\<lambda>j. 1) (Fin (tol + 1)) 0
      = (a2, b2, e3, i2)" by simp
  from ipfp_log_exact[OF assms(1-6) lin] ipfp_lse_exact[OF assms(1-6) lse']
  show ?thesis
    by (fastforce simp: pot_def[abs_def])
qed

text \<open>
  C5, amended.  In exact arithmetic, for finite \<open>Phi\<close>, \<open>sigma \<noteq> 0\<close>, strictly positive \<open>p\<close>
  and \<open>q\<close> and a cap above zero: on a surplus matrix with five rows the matrix IPFP cell and
  the log-domain cell return the same coupling, the same value, the same iteration count and
  status, and the same potentials; on every finite \<open>v\<close> the body of the log-domain loop and
  the body of the log-sum-exp loop compute the same \<open>u\<close> and the same new \<open>v\<close> (their errors
  are different quantities); and with a negative tolerance, so that only the cap stops the
  loops, the log-domain cell and the log-sum-exp cell return the same coupling, value,
  potentials and iteration count.
\<close>

theorem engines_same_iteration:
  assumes "0 < n" "0 < m" "sigma \<noteq> 0" "pos_on n p" "pos_on m q" "pos_on 5 p5" "0 < maxite"
    "ntol < 0"
  shows "(\<exists>r1 r2. ipfp1 exact (fin2 5 m phi5) (fin1 5 p5) (fin1 m q) m sigma tol maxite = Inr r1
           \<and> ipfp_log exact (fin2 5 m phi5) (fin1 5 p5) (fin1 m q) 5 m sigma tol maxite = Inr r2
           \<and> res_pi r1 = res_pi r2 \<and> res_val r1 = res_val r2 \<and> res_ite r1 = res_ite r2
           \<and> res_status r1 = res_status r2
           \<and> flatten (res_u r1) = res_u r2 \<and> flatten (res_v r1) = res_v r2)
       \<and> (\<exists>u e1 e2 v'.
           log_body exact (fin2 n m phi) (neg_sigma_log exact sigma (fin1 n p))
             (neg_sigma_log exact sigma (fin1 m q)) (fin1 m q) n sigma (fin1 m v) = Inr (u, e1, v')
         \<and> lse_body exact (fin2 n m phi) (neg_sigma_log exact sigma (fin1 n p))
             (neg_sigma_log exact sigma (fin1 m q)) n sigma (fin1 m v) (map_option (fin1 n) w)
           = Inr (u, e2, v'))
       \<and> (\<exists>r2 r3. ipfp_log exact (fin2 n m phi) (fin1 n p) (fin1 m q) n m sigma ntol maxite = Inr r2
           \<and> ipfp_lse exact (fin2 n m phi) (fin1 n p) (fin1 m q) n m sigma ntol maxite = Inr r3
           \<and> res_pi r2 = res_pi r3 \<and> res_val r2 = res_val r3 \<and> res_u r2 = res_u r3
           \<and> res_v r2 = res_v r3 \<and> res_ite r2 = res_ite r3 \<and> res_status r2 = res_status r3)"
  using ipfp1_ipfp_log_agree[OF assms(2,3,6,5,7)] log_lse_same_updates[OF assms(1-5)]
    log_lse_same_at_cap[OF assms(1-5,7,8)]
  by blast

theorem engines_same_iteration_witness:
  "(\<exists>r1 r2. ipfp1 exact (fin2 5 3 (\<lambda>i j. real (i * j) / 7)) (fin1 5 (\<lambda>i. 1 / 5)) (fin1 3 (\<lambda>j. 1 / 3)) 3
               (1 / 10) (1 / 10 ^ 9) 1000000 = Inr r1
           \<and> ipfp_log exact (fin2 5 3 (\<lambda>i j. real (i * j) / 7)) (fin1 5 (\<lambda>i. 1 / 5)) (fin1 3 (\<lambda>j. 1 / 3))
               5 3 (1 / 10) (1 / 10 ^ 9) 1000000 = Inr r2
           \<and> res_pi r1 = res_pi r2 \<and> res_val r1 = res_val r2 \<and> res_ite r1 = res_ite r2
           \<and> res_status r1 = res_status r2
           \<and> flatten (res_u r1) = res_u r2 \<and> flatten (res_v r1) = res_v r2)
   \<and> (\<exists>u e1 e2 v'.
           log_body exact (fin2 5 3 (\<lambda>i j. real (i * j) / 7)) (neg_sigma_log exact (1 / 10) (fin1 5 (\<lambda>i. 1 / 5)))
             (neg_sigma_log exact (1 / 10) (fin1 3 (\<lambda>j. 1 / 3))) (fin1 3 (\<lambda>j. 1 / 3)) 5 (1 / 10)
             (fin1 3 (\<lambda>j. 0)) = Inr (u, e1, v')
         \<and> lse_body exact (fin2 5 3 (\<lambda>i j. real (i * j) / 7)) (neg_sigma_log exact (1 / 10) (fin1 5 (\<lambda>i. 1 / 5)))
             (neg_sigma_log exact (1 / 10) (fin1 3 (\<lambda>j. 1 / 3))) 5 (1 / 10) (fin1 3 (\<lambda>j. 0))
             (map_option (fin1 5) None)
           = Inr (u, e2, v'))
   \<and> (\<exists>r2 r3. ipfp_log exact (fin2 5 3 (\<lambda>i j. real (i * j) / 7)) (fin1 5 (\<lambda>i. 1 / 5))
               (fin1 3 (\<lambda>j. 1 / 3)) 5 3 (1 / 10) (- 1) 1000000 = Inr r2
           \<and> ipfp_lse exact (fin2 5 3 (\<lambda>i j. real (i * j) / 7)) (fin1 5 (\<lambda>i. 1 / 5))
               (fin1 3 (\<lambda>j. 1 / 3)) 5 3 (1 / 10) (- 1) 1000000 = Inr r3
           \<and> res_pi r2 = res_pi r3 \<and> res_val r2 = res_val r3 \<and> res_u r2 = res_u r3
           \<and> res_v r2 = res_v r3 \<and> res_ite r2 = res_ite r3 \<and> res_status r2 = res_status r3)"
proof -
  have h: "0 < (5::nat)" "0 < (3::nat)" "(1 / 10 :: real) \<noteq> 0" "pos_on 5 (\<lambda>i. 1 / 5)"
    "pos_on 3 (\<lambda>j. 1 / 3)" "pos_on 5 (\<lambda>i. 1 / 5)" "0 < (1000000::real)" "(- 1 :: real) < 0"
    by (simp_all add: pos_on_def)
  show ?thesis
    by (rule engines_same_iteration[OF h])
qed

lemma sum_two: "(\<Sum>i<2. f i) = f 0 + f (Suc 0 :: nat)"
  by (simp add: eval_nat_numeral)

lemma image_two: "f ` {..<2::nat} = {f 0, f (Suc 0)}"
  by (auto simp: eval_nat_numeral lessThan_Suc)

lemma spec_a_v2: "spec_a 2 (k2 d c) (v2 p0 p1) (v2 x y) = v2 (p0 / (d * x + c * y)) (p1 / (c * x + d * y))"
  by (auto simp: spec_a_def v2_def k2_def fun_eq_iff sum_two)

lemma spec_b_v2: "spec_b 2 (k2 d c) (v2 q0 q1) (v2 a0 a1) = v2 (q0 / (d * a0 + c * a1)) (q1 / (c * a0 + d * a1))"
  by (auto simp: spec_b_def v2_def k2_def fun_eq_iff sum_two)

lemma spec_error_v2:
  "spec_error 2 2 (k2 d c) (v2 q0 q1) (v2 a0 a1) (v2 x y)
     = max \<bar>(a0 * d + a1 * c) * x / q0 - 1\<bar> \<bar>(a0 * c + a1 * d) * y / q1 - 1\<bar>"
  by (simp add: spec_error_def v2_def k2_def image_two sum_two)

lemma lse_err_v2:
  "lse_err 2 sigma (v2 a0 a1) (Some (v2 c0 c1))
     = Fin (max \<bar>sigma * ln c0 - sigma * ln a0\<bar> \<bar>sigma * ln c1 - sigma * ln a1\<bar>)"
  by (simp add: lse_err_def pot_def v2_def image_two)

lemma ones_v2: "(\<lambda>j. 1) = v2 1 1"
  by (simp add: v2_def fun_eq_iff)

lemma kernel_k2:
  "sigma \<noteq> 0 \<Longrightarrow> 0 < d \<Longrightarrow> kernel sigma (k2 (sigma * ln d) 0) = k2 d 1"
  by (auto simp: kernel_def k2_def fun_eq_iff)

lemma lin_run:
  "lin_loop 2 2 (k2 10 1) (v2 (1 / 2) (1 / 2)) (v2 (1 / 4) (3 / 4)) (3 / 50) 1000000
     None (v2 1 1) (3 / 50 + 1) 0
   = (Some (v2 (454062123550672519380689110472 / 3951579119564689225696887955619)
               (19741831458724892146986483064 / 855932938427856829041763942213)),
      v2 (163208583131017783468372272878866745423 / 765206502312618805572446738209015008736)
         (489625749393053350405116818636600236269 / 225589150071488653362655666279324274656),
      6177051260219961 / 181135428892415161, 5)"
  apply (subst lin_loop.simps, simp add: spec_a_v2 spec_b_v2 spec_error_v2)
  apply (subst lin_loop.simps, simp add: spec_a_v2 spec_b_v2 spec_error_v2)
  apply (subst lin_loop.simps, simp add: spec_a_v2 spec_b_v2 spec_error_v2)
  apply (subst lin_loop.simps, simp add: spec_a_v2 spec_b_v2 spec_error_v2)
  apply (subst lin_loop.simps, simp add: spec_a_v2 spec_b_v2 spec_error_v2)
  apply (subst lin_loop.simps, simp add: spec_a_v2 spec_b_v2 spec_error_v2)
  done

lemma ln_ratio_bound:
  assumes "0 < (x::real)" "x \<le> y" "y \<le> x * (1 + c + c\<^sup>2 / 2)" "0 \<le> c"
  shows "\<bar>ln x - ln y\<bar> \<le> c"
proof -
  have y: "0 < y" using assms by linarith
  have "y / x \<le> 1 + c + c\<^sup>2 / 2"
    using assms(1,3) by (simp add: pos_divide_le_eq mult.commute)
  also have "\<dots> \<le> exp c"
    by (rule exp_lower_Taylor_quadratic[OF assms(4)])
  finally have "exp (ln (y / x)) \<le> exp c"
    using assms(1) y by simp
  then have "ln (y / x) \<le> c"
    by (simp only: exp_le_cancel_iff)
  moreover have "ln x \<le> ln y"
    using assms(1,2) by simp
  ultimately show ?thesis
    using assms(1) y by (simp add: ln_div)
qed

lemma lse_err_None: "lse_err n sigma a None = PInf"
  by (simp add: lse_err_def)

lemma lse_run:
  "lse_loop_r 2 2 (k2 10 1) (v2 (1 / 2) (1 / 2)) (v2 (1 / 4) (3 / 4)) (1 / 10) (3 / 50) 1000000
     None (v2 1 1) (Fin (3 / 50 + 1)) 0
   = (Some (v2 (1 / 13) (1 / 31)), v2 (403 / 1292) (1209 / 644),
      lse_err 2 (1 / 10) (v2 (1 / 13) (1 / 31)) (Some (v2 (1 / 22) (1 / 22))), Suc (Suc 0))"
proof -
  have 1: "\<bar>ln 13 - ln 22\<bar> \<le> (6 / 10 :: real)"
    by (rule ln_ratio_bound) (simp_all add: power2_eq_square)
  have 2: "\<bar>ln 22 - ln 31\<bar> \<le> (6 / 10 :: real)"
    by (rule ln_ratio_bound) (simp_all add: power2_eq_square)
  have a1: "\<bar>1 / 10 * ln (1 / 22) - 1 / 10 * ln (1 / 13)\<bar> \<le> (3 / 50 :: real)"
    using 1 by (simp add: ln_div)
  have a2: "\<bar>1 / 10 * ln (1 / 22) - 1 / 10 * ln (1 / 31)\<bar> \<le> (3 / 50 :: real)"
    using 2 by (simp add: ln_div)
  have "max \<bar>1 / 10 * ln (1 / 22) - 1 / 10 * ln (1 / 13)\<bar> \<bar>1 / 10 * ln (1 / 22) - 1 / 10 * ln (1 / 31)\<bar>
          \<le> (3 / 50 :: real)"
    using a1 a2 by (rule max.boundedI)
  then have e: "\<not> fgt (lse_err 2 (1 / 10) (v2 (1 / 13) (1 / 31)) (Some (v2 (1 / 22) (1 / 22)))) (Fin (3 / 50))"
    by (simp only: lse_err_v2 fgt.simps not_less)
  have "lse_loop_r 2 2 (k2 10 1) (v2 (1 / 2) (1 / 2)) (v2 (1 / 4) (3 / 4)) (1 / 10) (3 / 50) 1000000
     None (v2 1 1) (Fin (3 / 50 + 1)) 0
    = lse_loop_r 2 2 (k2 10 1) (v2 (1 / 2) (1 / 2)) (v2 (1 / 4) (3 / 4)) (1 / 10) (3 / 50) 1000000
     (Some (v2 (1 / 22) (1 / 22))) (v2 (1 / 2) (3 / 2)) PInf (Suc 0)"
    by (subst lse_loop_r.simps) (simp add: spec_a_v2 spec_b_v2 lse_err_None)
  also have "\<dots> = lse_loop_r 2 2 (k2 10 1) (v2 (1 / 2) (1 / 2)) (v2 (1 / 4) (3 / 4)) (1 / 10) (3 / 50) 1000000
      (Some (v2 (1 / 13) (1 / 31))) (v2 (403 / 1292) (1209 / 644))
      (lse_err 2 (1 / 10) (v2 (1 / 13) (1 / 31)) (Some (v2 (1 / 22) (1 / 22)))) (Suc (Suc 0))"
    by (subst lse_loop_r.simps) (simp add: spec_a_v2 spec_b_v2)
  also have "\<dots> = (Some (v2 (1 / 13) (1 / 31)), v2 (403 / 1292) (1209 / 644),
       lse_err 2 (1 / 10) (v2 (1 / 13) (1 / 31)) (Some (v2 (1 / 22) (1 / 22))), Suc (Suc 0))"
    using e by (subst lse_loop_r.simps) simp
  finally show ?thesis .
qed

lemma el_fin2: "i < n \<Longrightarrow> j < m \<Longrightarrow> el (fin2 n m P) i j = Fin (P i j)"
  by (simp add: fin2_def)

text \<open>
  C5, as the claim states it, fails.  On the surplus matrix with \<open>0.1 * log 10\<close> on the
  diagonal and 0 elsewhere, \<open>p = (1/2, 1/2)\<close>, \<open>q = (1/4, 3/4)\<close>, \<open>sigma = 0.1\<close>,
  \<open>tol = 0.06\<close> and the cap \<open>10^6\<close>, the log-domain cell converges in five iterations and the
  log-sum-exp cell in two, and the couplings they return differ by more than the tolerance
  in the entry of row 0 and column 1.
\<close>

theorem log_and_lse_return_different_couplings:
  "\<exists>r2 r3.
     ipfp_log exact (fin2 2 2 (k2 (1 / 10 * ln 10) 0)) (fin1 2 (v2 (1 / 2) (1 / 2)))
       (fin1 2 (v2 (1 / 4) (3 / 4))) 2 2 (1 / 10) (3 / 50) 1000000 = Inr r2
   \<and> ipfp_lse exact (fin2 2 2 (k2 (1 / 10 * ln 10) 0)) (fin1 2 (v2 (1 / 2) (1 / 2)))
       (fin1 2 (v2 (1 / 4) (3 / 4))) 2 2 (1 / 10) (3 / 50) 1000000 = Inr r3
   \<and> res_status r2 = Converged \<and> res_status r3 = Converged
   \<and> res_ite r2 = 5 \<and> res_ite r3 = 2
   \<and> \<not> close_to (3 / 50) (el (res_pi r2) 0 1) (el (res_pi r3) 0 1)"
proof -
  have h: "0 < (2::nat)" "(1 / 10 :: real) \<noteq> 0" "pos_on 2 (v2 (1 / 2) (1 / 2))"
    "pos_on 2 (v2 (1 / 4) (3 / 4))" "0 < (1000000::real)"
    by (simp_all add: pos_on_def v2_def)
  have K: "kernel (1 / 10) (k2 (1 / 10 * ln 10) 0) = k2 10 1"
    by (rule kernel_k2) simp_all
  from ipfp_log_exact[OF h(1,1,2,3,4,5), of "k2 (1 / 10 * ln 10) 0" "3 / 50", unfolded K ones_v2, OF lin_run]
  obtain r2 where r2:
    "ipfp_log exact (fin2 2 2 (k2 (1 / 10 * ln 10) 0)) (fin1 2 (v2 (1 / 2) (1 / 2)))
       (fin1 2 (v2 (1 / 4) (3 / 4))) 2 2 (1 / 10) (3 / 50) 1000000 = Inr r2"
    "res_status r2 = status_of 5 1000000" "res_ite r2 = 5"
    "res_pi r2 = fin2 2 2 (\<lambda>i j. k2 10 1 i j
        * v2 (454062123550672519380689110472 / 3951579119564689225696887955619)
             (19741831458724892146986483064 / 855932938427856829041763942213) i
        * v2 (163208583131017783468372272878866745423 / 765206502312618805572446738209015008736)
             (489625749393053350405116818636600236269 / 225589150071488653362655666279324274656) j)"
    by fastforce
  from ipfp_lse_exact[OF h(1,1,2,3,4,5), of "k2 (1 / 10 * ln 10) 0" "3 / 50", unfolded K ones_v2, OF lse_run]
  obtain r3 where r3:
    "ipfp_lse exact (fin2 2 2 (k2 (1 / 10 * ln 10) 0)) (fin1 2 (v2 (1 / 2) (1 / 2)))
       (fin1 2 (v2 (1 / 4) (3 / 4))) 2 2 (1 / 10) (3 / 50) 1000000 = Inr r3"
    "res_status r3 = status_of (Suc (Suc 0)) 1000000" "res_ite r3 = Suc (Suc 0)"
    "res_pi r3 = fin2 2 2 (\<lambda>i j. k2 10 1 i j * v2 (1 / 13) (1 / 31) i * v2 (403 / 1292) (1209 / 644) j)"
    by fastforce
  have "\<not> close_to (3 / 50) (el (res_pi r2) 0 1) (el (res_pi r3) 0 1)"
    unfolding r2(4) r3(4) by (simp add: el_fin2 k2_def v2_def)
  then show ?thesis
    using r2 r3 by (auto simp: status_of_def)
qed

section \<open>C3: the marginals of a result reported as converged\<close>

lemma lin_converged_marginals_mass:
  assumes m: "0 < m" and K: "pos_on2 n m K" and p: "nonneg_on n p" and q: "pos_on m q"
    and p1: "(\<Sum>i<n. p i) = 1" and q1: "(\<Sum>j<m. q j) = 1"
    and maxite: "0 < maxite"
    and fin: "lin_loop n m K p q tol maxite None (\<lambda>j. 1) (tol + 1) 0 = (a', b', e', ite')"
    and conv: "status_of ite' maxite = Converged"
  shows "\<exists>a. a' = Some a
           \<and> all_close tol (sum_axis1 exact (fin2 n m (\<lambda>i j. K i j * a i * b' j))) (fin1 n p)
           \<and> sum_axis0 exact (fin2 n m (\<lambda>i j. K i j * a i * b' j)) = fin1 m q"
proof -
  have pm: "mass_on n p" by (rule mass_on_sum[OF p p1])
  from ipfp1_loop_run_mass[OF m K pm q maxite fin]
  obtain a b0 where r: "a' = Some a" "pos_on m b0" "a = spec_a m K p b0" "mass_on n a"
    "b' = spec_b n K q a" "e' = spec_error n m K q a b0" "\<not> (tol < e' \<and> real ite' < maxite)"
    by blast
  have "real ite' < maxite"
    using conv by (simp add: status_of_def split: if_splits)
  with r(7) have e: "e' \<le> tol" by simp
  have tol: "0 \<le> tol"
    using spec_error_nonneg[OF m, where n=n and K=K and q=q and a=a and b=b0] e r(6) by simp
  have rows: "\<bar>(\<Sum>j<m. K i j * a i * b' j) - p i\<bar> \<le> tol" if "i < n" for i
    unfolding r(5) r(3)
    by (rule row_sum_close_mass[OF m K pm q r(2) tol _ that p1 q1]) (use e r(6,3) in simp)
  have cols: "sum_axis0 exact (fin2 n m (\<lambda>i j. K i j * a i * b' j)) = fin1 m q"
    unfolding r(5) sum_axis0_fin2 by (rule fin1_cong) (rule col_sum_exact_mass[OF K r(4)])
  show ?thesis
    using r(1) rows cols by (simp add: sum_axis1_fin2 all_close_fin1)
qed

lemma ipfp1_converged_marginals_mass:
  assumes "0 < m" "sigma \<noteq> 0" "nonneg_on 5 p" "pos_on m q" "(\<Sum>i<5. p i) = 1" "(\<Sum>j<m. q j) = 1"
    "0 < maxite"
  shows "\<exists>r. ipfp1 exact (fin2 5 m phi) (fin1 5 p) (fin1 m q) m sigma tol maxite = Inr r
           \<and> (res_status r = Converged \<longrightarrow>
                all_close tol (sum_axis1 exact (res_pi r)) (fin1 5 p)
              \<and> sum_axis0 exact (res_pi r) = fin1 m q)"
proof -
  let ?K = "kernel sigma phi"
  obtain a' b' e' ite' where
    fin: "lin_loop 5 m ?K p q tol maxite None (\<lambda>j. 1) (tol + 1) 0 = (a', b', e', ite')"
    using lin_loop_total by blast
  from ipfp1_mass[OF assms(1,2) mass_on_sum[OF assms(3,5)] assms(4,7) fin]
  obtain a r where r: "a' = Some a"
    "ipfp1 exact (fin2 5 m phi) (fin1 5 p) (fin1 m q) m sigma tol maxite = Inr r"
    "res_status r = status_of ite' maxite"
    "res_pi r = fin2 5 m (\<lambda>i j. ?K i j * a i * b' j)"
    by blast
  show ?thesis
    using lin_converged_marginals_mass[OF assms(1) kernel_pos assms(3,4,5,6,7) fin] r
    by auto
qed

lemma ipfp_log_converged_marginals_mass:
  assumes "0 < n" "0 < m" "0 < sigma" "nonneg_on n p" "pos_on m q" "(\<Sum>i<n. p i) = 1"
    "(\<Sum>j<m. q j) = 1" "0 < maxite"
  shows "\<exists>r. ipfp_log exact (fin2 n m phi) (fin1 n p) (fin1 m q) n m sigma tol maxite = Inr r
           \<and> (res_status r = Converged \<longrightarrow>
                all_close tol (sum_axis1 exact (res_pi r)) (fin1 n p)
              \<and> sum_axis0 exact (res_pi r) = fin1 m q)"
proof -
  let ?K = "kernel sigma phi"
  obtain a' b' e' ite' where
    fin: "lin_loop n m ?K p q tol maxite None (\<lambda>j. 1) (tol + 1) 0 = (a', b', e', ite')"
    using lin_loop_total by blast
  from ipfp_log_mass[OF assms(1-5,6,8) fin]
  obtain a r where r: "a' = Some a"
    "ipfp_log exact (fin2 n m phi) (fin1 n p) (fin1 m q) n m sigma tol maxite = Inr r"
    "res_status r = status_of ite' maxite"
    "res_pi r = fin2 n m (\<lambda>i j. ?K i j * a i * b' j)"
    by blast
  show ?thesis
    using lin_converged_marginals_mass[OF assms(2) kernel_pos assms(4,5,6,7,8) fin] r
    by auto
qed

lemma lin_loop_one_column:
  assumes "0 < n" "pos_on2 n 1 K" "(\<Sum>i<n. p i) = 1" "0 \<le> tol" "0 < maxite"
  shows "\<exists>a b e. lin_loop n 1 K p (\<lambda>j. 1) tol maxite None (\<lambda>j. 1) (tol + 1) 0 = (a, b, e, Suc 0)"
proof -
  have K: "K i 0 \<noteq> 0" if "i < n" for i
    using assms(2) that by (fastforce simp: pos_on2_def)
  have "(\<Sum>i<n. spec_a 1 K p (\<lambda>j. 1) i * K i 0) = (\<Sum>i<n. p i)"
    by (rule sum.cong) (simp_all add: spec_a_def K)
  then have "spec_error n 1 K (\<lambda>j. 1) (spec_a 1 K p (\<lambda>j. 1)) (\<lambda>j. 1) = 0"
    by (simp add: spec_error_def assms(3) lessThan_Suc)
  then show ?thesis
    using assms(4) by (simp add: lin_loop_first[OF assms(5)] lin_loop.simps[of _ _ _ _ _ _ _ "Some _"])
qed

text \<open>
  C3, amended.  In exact arithmetic, for finite \<open>Phi\<close>, \<open>sigma > 0\<close>, \<open>p\<close> without a negative
  entry and strictly positive \<open>q\<close> that each sum to 1, every tolerance and every cap above
  zero: the matrix IPFP cell on a surplus matrix with five rows, and the log-domain cell on
  one of any shape, return a result; when its status is Converged, every row sum of the
  returned coupling is within the tolerance of the entry of \<open>p\<close> and the column sums are \<open>q\<close>.
\<close>

theorem converged_marginals_within_tolerance:
  assumes "0 < n" "0 < m" "0 < sigma" "nonneg_on n p" "pos_on m q" "nonneg_on 5 p5"
    "(\<Sum>i<n. p i) = 1" "(\<Sum>i<5. p5 i) = 1" "(\<Sum>j<m. q j) = 1" "0 < maxite"
  shows "(\<exists>r. ipfp1 exact (fin2 5 m phi5) (fin1 5 p5) (fin1 m q) m sigma tol maxite = Inr r
           \<and> (res_status r = Converged \<longrightarrow>
                all_close tol (sum_axis1 exact (res_pi r)) (fin1 5 p5)
              \<and> sum_axis0 exact (res_pi r) = fin1 m q))
       \<and> (\<exists>r. ipfp_log exact (fin2 n m phi) (fin1 n p) (fin1 m q) n m sigma tol maxite = Inr r
           \<and> (res_status r = Converged \<longrightarrow>
                all_close tol (sum_axis1 exact (res_pi r)) (fin1 n p)
              \<and> sum_axis0 exact (res_pi r) = fin1 m q))"
proof -
  have s: "sigma \<noteq> 0" using assms(3) by simp
  show ?thesis
    using ipfp1_converged_marginals_mass[OF assms(2) s assms(6,5,8,9,10)]
      ipfp_log_converged_marginals_mass[OF assms(1,2,3,4,5,7,9,10)]
    by blast
qed

theorem converged_marginals_within_tolerance_witness:
  "(\<exists>r. ipfp1 exact (fin2 5 1 (\<lambda>i j. real i / 7)) (fin1 5 (v2 0 (1 / 4))) (fin1 1 (\<lambda>j. 1)) 1
            (1 / 10) (1 / 10 ^ 9) 1000000 = Inr r
         \<and> res_status r = Converged
         \<and> all_close (1 / 10 ^ 9) (sum_axis1 exact (res_pi r)) (fin1 5 (v2 0 (1 / 4)))
         \<and> sum_axis0 exact (res_pi r) = fin1 1 (\<lambda>j. 1))
   \<and> (\<exists>r. ipfp_log exact (fin2 2 1 (\<lambda>i j. real i / 7)) (fin1 2 (v2 0 1)) (fin1 1 (\<lambda>j. 1)) 2 1
            (1 / 10) (1 / 10 ^ 9) 1000000 = Inr r
         \<and> res_status r = Converged
         \<and> all_close (1 / 10 ^ 9) (sum_axis1 exact (res_pi r)) (fin1 2 (v2 0 1))
         \<and> sum_axis0 exact (res_pi r) = fin1 1 (\<lambda>j. 1))"
proof -
  let ?phi = "\<lambda>(i::nat) (j::nat). real i / 7"
  have h: "0 < (2::nat)" "0 < (1::nat)" "0 < (1 / 10 :: real)" "nonneg_on 2 (v2 0 1)"
    "pos_on 1 (\<lambda>j. 1)" "nonneg_on 5 (v2 0 (1 / 4))" "(\<Sum>i<2::nat. v2 0 1 i) = 1"
    "(\<Sum>i<5::nat. v2 0 (1 / 4) i) = 1" "(\<Sum>j<1::nat. 1 :: real) = 1" "0 < (1000000::real)"
    by (simp_all add: pos_on_def nonneg_on_def v2_def eval_nat_numeral lessThan_Suc)
  have t: "0 \<le> (1 / 10 ^ 9 :: real)" "0 < (5::nat)" "(1 / 10 :: real) \<noteq> 0" by simp_all
  from lin_loop_one_column[OF t(2) kernel_pos h(8) t(1) h(10), of "1 / 10" ?phi]
  obtain a1 b1 e1 where l1: "lin_loop 5 1 (kernel (1 / 10) ?phi) (v2 0 (1 / 4)) (\<lambda>j. 1) (1 / 10 ^ 9) 1000000
      None (\<lambda>j. 1) (1 / 10 ^ 9 + 1) 0 = (a1, b1, e1, Suc 0)"
    by blast
  from lin_loop_one_column[OF h(1) kernel_pos h(7) t(1) h(10), of "1 / 10" ?phi]
  obtain a2 b2 e2 where l2: "lin_loop 2 1 (kernel (1 / 10) ?phi) (v2 0 1) (\<lambda>j. 1) (1 / 10 ^ 9) 1000000
      None (\<lambda>j. 1) (1 / 10 ^ 9 + 1) 0 = (a2, b2, e2, Suc 0)"
    by blast
  from ipfp1_mass[OF h(2) t(3) mass_on_sum[OF h(6,8)] h(5,10) l1]
  obtain r1 where r1: "ipfp1 exact (fin2 5 1 ?phi) (fin1 5 (v2 0 (1 / 4))) (fin1 1 (\<lambda>j. 1)) 1
            (1 / 10) (1 / 10 ^ 9) 1000000 = Inr r1" "res_status r1 = Converged"
    by (fastforce simp: status_of_def)
  from ipfp_log_mass[OF h(1,2,3,4,5,7,10) l2]
  obtain r2 where r2: "ipfp_log exact (fin2 2 1 ?phi) (fin1 2 (v2 0 1)) (fin1 1 (\<lambda>j. 1)) 2 1
            (1 / 10) (1 / 10 ^ 9) 1000000 = Inr r2" "res_status r2 = Converged"
    by (fastforce simp: status_of_def)
  show ?thesis
    using converged_marginals_within_tolerance[OF h, of ?phi "1 / 10 ^ 9" ?phi] r1 r2
    by auto
qed

text \<open>
  C3, as the claim states it, fails on the matrix IPFP cell at a marginal with a zero entry,
  which the preconditions allow.  With \<open>Phi\<close> of shape \<open>(5, 3)\<close>, \<open>log 2\<close> in its first entry
  and 0 elsewhere, \<open>p\<close> uniform, \<open>q = (1/2, 1/2, 0)\<close>, \<open>sigma = 1\<close>, \<open>tol = 1e-9\<close> and the
  cap \<open>10^6\<close>: the first error is \<open>inf\<close> (\<open>1 / 0\<close>), the second is NaN (\<open>0 / 0\<close>), the test
  \<open>error > tol\<close> is false on NaN, and the cell reports convergence after two iterations
  with the row sums \<open>9061/45241\<close> and \<open>9045/45241\<close> in place of \<open>1/5\<close>.
\<close>

theorem zero_marginal_entry_reports_converged:
  "\<exists>r. ipfp1 exact (fin2 5 3 (\<lambda>i j. if i = 0 \<and> j = 0 then ln 2 else 0)) (fin1 5 (\<lambda>i. 1 / 5))
         [Fin (1 / 2), Fin (1 / 2), Fin 0] 3 1 (1 / 10 ^ 9) 1000000 = Inr r
     \<and> res_status r = Converged \<and> res_ite r = 2
     \<and> sum_axis1 exact (res_pi r)
         = [Fin (9061 / 45241), Fin (9045 / 45241), Fin (9045 / 45241), Fin (9045 / 45241),
            Fin (9045 / 45241)]
     \<and> \<not> all_close (1 / 10 ^ 9) (sum_axis1 exact (res_pi r)) (fin1 5 (\<lambda>i. 1 / 5))"
proof -
  let ?Phi = "fin2 5 3 (\<lambda>i j. if i = 0 \<and> j = 0 then ln 2 else 0)"
  let ?K = "fin2 5 3 (\<lambda>i j. if i = 0 \<and> j = 0 then 2 else 1)"
  let ?p = "fin1 5 (\<lambda>i. 1 / 5)"
  let ?q = "[Fin (1 / 2), Fin (1 / 2), Fin 0]"
  let ?A = "Arr2 1 [[Fin (209 / 4500)], [Fin (209 / 3075)], [Fin (209 / 3075)],
                    [Fin (209 / 3075)], [Fin (209 / 3075)]]"
  let ?B = "Arr2 1 [[Fin (46125 / 33649)], [Fin (92250 / 58729)], [Fin 0]]"
  let ?KA = "Arr2 3 [[Fin (209 / 2250), Fin (209 / 4500), Fin (209 / 4500)],
                     [Fin (209 / 3075), Fin (209 / 3075), Fin (209 / 3075)],
                     [Fin (209 / 3075), Fin (209 / 3075), Fin (209 / 3075)],
                     [Fin (209 / 3075), Fin (209 / 3075), Fin (209 / 3075)],
                     [Fin (209 / 3075), Fin (209 / 3075), Fin (209 / 3075)]]"
  let ?P = "Arr2 3 [[Fin (41 / 322), Fin (41 / 562), Fin 0],
                    [Fin (15 / 161), Fin (30 / 281), Fin 0],
                    [Fin (15 / 161), Fin (30 / 281), Fin 0],
                    [Fin (15 / 161), Fin (30 / 281), Fin 0],
                    [Fin (15 / 161), Fin (30 / 281), Fin 0]]"
  have "kernel 1 (\<lambda>i j. if i = 0 \<and> j = 0 then ln 2 else 0)
        = (\<lambda>(i::nat) (j::nat). if i = 0 \<and> j = 0 then 2 else 1)"
    by (auto simp: kernel_def fun_eq_iff)
  then have K: "exp_over exact 1 ?Phi = ?K"
    by (simp add: exp_over_fin2)
  have loop: "ipfp1_loop exact ?K ?p ?q (1 / 10 ^ 9) 1000000 None (two_d (replicate 3 (Fin 1)))
                (fadd exact (Fin (1 / 10 ^ 9)) (Fin 1)) 0 = Inr (Some ?A, ?B, NaN, 2)"
    by code_simp
  have KA: "bc22 (fmul exact) ?K ?A = Inr ?KA"
    by code_simp
  have P: "bc22 (fmul exact) ?KA (np_T (repeat_axis1 5 ?B)) = Inr ?P"
    by code_simp
  have "?P = tab 5 3 (\<lambda>i j. el ?P i j)"
    by code_simp
  then obtain x where val: "objective exact 1 ?Phi ?P = Inr x"
    using objective_shape[where r=5 and n=5 and R=exact and sigma=1 and c=3
        and phi="\<lambda>i j. Fin (if i = 0 \<and> j = 0 then ln 2 else 0)" and P="\<lambda>i j. el ?P i j"]
    by (auto simp: fin2_def bdim_def)
  have rows: "sum_axis1 exact ?P
      = [Fin (9061 / 45241), Fin (9045 / 45241), Fin (9045 / 45241), Fin (9045 / 45241),
         Fin (9045 / 45241)]"
    by code_simp
  have far: "\<not> all_close (1 / 10 ^ 9)
      [Fin (9061 / 45241), Fin (9045 / 45241), Fin (9045 / 45241), Fin (9045 / 45241),
       Fin (9045 / 45241)] ?p"
    by code_simp
  have "ipfp1 exact ?Phi ?p ?q 3 1 (1 / 10 ^ 9) 1000000
        = Inr \<lparr>res_status = status_of 2 1000000, res_ite = 2,
               res_u = map2d (\<lambda>x. fmul exact (Fin (- 1)) (flog exact x)) ?A,
               res_v = map2d (\<lambda>x. fmul exact (Fin (- 1)) (flog exact x)) ?B,
               res_pi = ?P, res_val = x\<rparr>"
    by (simp only: ipfp1_def Let_def K loop bnd_Inr prod.case option.case KA P val)
  then show ?thesis
    using rows far by (simp add: status_of_def)
qed

text \<open>
  The log-sum-exp cell stops on the change of \<open>u\<close>, not on a marginal: on the surplus matrix
  with \<open>0.1 * log 10\<close> on the diagonal and 0 elsewhere, \<open>p = (1/2, 1/2)\<close>,
  \<open>q = (1/4, 3/4)\<close>, \<open>sigma = 0.1\<close> and \<open>tol = 0.06\<close>, it reports convergence after two
  iterations with a first row sum that is off by more than the tolerance.
\<close>

lemma lse_converged_row_sums_off:
  "\<exists>r. ipfp_lse exact (fin2 2 2 (k2 (1 / 10 * ln 10) 0)) (fin1 2 (v2 (1 / 2) (1 / 2)))
         (fin1 2 (v2 (1 / 4) (3 / 4))) 2 2 (1 / 10) (3 / 50) 1000000 = Inr r
     \<and> res_status r = Converged
     \<and> \<not> all_close (3 / 50) (sum_axis1 exact (res_pi r)) (fin1 2 (v2 (1 / 2) (1 / 2)))"
proof -
  have h: "0 < (2::nat)" "(1 / 10 :: real) \<noteq> 0" "pos_on 2 (v2 (1 / 2) (1 / 2))"
    "pos_on 2 (v2 (1 / 4) (3 / 4))" "0 < (1000000::real)"
    by (simp_all add: pos_on_def v2_def)
  have K: "kernel (1 / 10) (k2 (1 / 10 * ln 10) 0) = k2 10 1"
    by (rule kernel_k2) simp_all
  from ipfp_lse_exact[OF h(1,1,2,3,4,5), of "k2 (1 / 10 * ln 10) 0" "3 / 50", unfolded K ones_v2, OF lse_run]
  obtain r3 where r3:
    "ipfp_lse exact (fin2 2 2 (k2 (1 / 10 * ln 10) 0)) (fin1 2 (v2 (1 / 2) (1 / 2)))
       (fin1 2 (v2 (1 / 4) (3 / 4))) 2 2 (1 / 10) (3 / 50) 1000000 = Inr r3"
    "res_status r3 = status_of (Suc (Suc 0)) 1000000"
    "res_pi r3 = fin2 2 2 (\<lambda>i j. k2 10 1 i j * v2 (1 / 13) (1 / 31) i * v2 (403 / 1292) (1209 / 644) j)"
    by fastforce
  have "\<not> all_close (3 / 50) (sum_axis1 exact (res_pi r3)) (fin1 2 (v2 (1 / 2) (1 / 2)))"
    unfolding r3(3) sum_axis1_fin2 all_close_fin1
    by (simp add: sum_two k2_def v2_def) (rule exI[of _ 0], simp)
  then show ?thesis
    using r3 by (auto simp: status_of_def)
qed

section \<open>C1: the log-sum-exp cell in binary64\<close>

lemma binary64_mid: "1 / 10 ^ 6 \<le> \<bar>r\<bar> \<Longrightarrow> \<bar>r\<bar> \<le> 10 ^ 6 \<Longrightarrow> binary64 r = Fin r"
  by (auto simp: binary64_def)

lemma binary64_0: "binary64 0 = Fin 0"
  by (simp add: binary64_def)

lemma binary64_small: "\<bar>r\<bar> < 1 / 2 ^ 1075 \<Longrightarrow> binary64 r = Fin 0"
  by (auto simp: binary64_def)

lemma exp_2000: "(2::real) ^ 2000 \<le> exp 2000"
proof -
  have "(2::real) \<le> exp 1"
    using exp_ge_add_one_self[of "1::real"] by simp
  then have "(2::real) ^ 2000 \<le> exp 1 ^ 2000"
    by (intro power_mono) simp_all
  also have "exp (1::real) ^ 2000 = exp (of_nat 2000 * 1)"
    by (simp only: exp_of_nat_mult)
  finally show ?thesis by simp
qed

lemma exp_underflow:
  assumes "x \<le> - 2000"
  shows "binary64 (exp x) = Fin 0"
proof -
  have "exp x \<le> exp (- 2000 :: real)"
    using assms by simp
  also have "\<dots> = 1 / exp 2000"
    by (simp add: exp_minus inverse_eq_divide)
  also have "\<dots> \<le> 1 / 2 ^ 2000"
    using exp_2000 by (intro divide_left_mono) simp_all
  also have "\<dots> < (1::real) / 2 ^ 1075"
    by simp
  finally have "\<bar>exp x\<bar> < 1 / 2 ^ 1075"
    by simp
  then show ?thesis
    by (rule binary64_small)
qed

lemma ln_2_bounds: "1 / 2 < ln (2::real)" "ln (2::real) < 1"
proof -
  have "exp (1 / 2 :: real) \<le> 1 + 1 / 2 + (1 / 2)\<^sup>2"
    by (rule exp_bound) simp_all
  also have "\<dots> < 2" by (simp add: power2_eq_square)
  finally have "exp (1 / 2 :: real) < exp (ln 2)" by simp
  then show "1 / 2 < ln (2::real)" by (simp only: exp_less_cancel_iff)
  show "ln (2::real) < 1" by (rule ln_2_less_1)
qed

lemma vec_2: "vec 2 f = [f 0, f 1]"
  by (simp add: vec_def upt_rec)

lemma vec_SS: "vec (Suc (Suc 0)) f = [f 0, f (Suc 0)]"
  by (simp add: vec_def upt_rec)

lemma vec_1: "vec (Suc 0) f = [f 0]"
  by (simp add: vec_def)

lemma vec_4: "vec 4 f = [f 0, f 1, f 2, f 3]"
  by (simp add: vec_def upt_rec eval_nat_numeral)

lemma fadd_NaN: "fadd R x NaN = NaN" "fadd R NaN x = NaN"
  by (cases x; simp)+

lemma fmul_NaN: "fmul R x NaN = NaN" "fmul R NaN x = NaN"
  by (cases x; simp)+

lemma mu_half:
  "neg_sigma_log binary64 (1 / 1000) (fin1 2 (v2 (1 / 2) (1 / 2))) = [Fin (ln 2 / 1000), Fin (ln 2 / 1000)]"
proof -
  have "ln (1 / 2 :: real) = - ln 2"
    by (simp add: ln_div)
  then show ?thesis
    using ln_2_bounds by (simp add: neg_sigma_log_def fin1_def vec_2 v2_def binary64_mid)
qed

lemma mu_bounds: "1 / 2000 < ln (2::real) / 1000" "ln (2::real) / 1000 < 1 / 1000"
  using ln_2_bounds by simp_all

lemma phi_2: "fin2 2 2 (k2 2 0) = Arr2 2 [[Fin 2, Fin 0], [Fin 0, Fin 2]]"
  by (simp add: fin2_def tab_def vec_2 k2_def)

lemma lse_body_underflow:
  assumes c: "1 / 2000 < c" "c < 1 / 1000"
  shows "lse_body binary64 (Arr2 2 [[Fin 2, Fin 0], [Fin 0, Fin 2]]) [Fin c, Fin c] [Fin c, Fin c]
           2 (1 / 1000) [Fin 0, Fin 0] None
         = Inr ([Fin (c + 2), Fin (c + 2)], PInf, [Fin 0, Fin 0])"
    and "lse_body binary64 (Arr2 2 [[Fin 2, Fin 0], [Fin 0, Fin 2]]) [Fin c, Fin c] [Fin c, Fin c]
           2 (1 / 1000) [Fin 0, Fin 0] (Some [Fin (c + 2), Fin (c + 2)])
         = Inr ([Fin (c + 2), Fin (c + 2)], Fin 0, [Fin 0, Fin 0])"
  using c
  by (simp_all add: lse_body_def lse_u_args_def bc22_def nrows_def bdim_def tab_def el_def np_T_def
      two_d_def rep_T_def repeat_axis1_def max_axis0_def fmax_def bidx_def map2d_def vec_2 vec_1 vec_SS
      fsub_def binary64_mid binary64_0 exp_underflow bc11_def sigma_log_def sum_axis1_def sum_axis0_def
      fsum_def lse_error_def lse_v_args_def)

lemma lse_loop_underflow:
  assumes c: "1 / 2000 < c" "c < 1 / 1000"
  shows "lse_loop binary64 (Arr2 2 [[Fin 2, Fin 0], [Fin 0, Fin 2]]) [Fin c, Fin c] [Fin c, Fin c]
           2 (1 / 1000) (1 / 10 ^ 9) 1000000 None [Fin 0, Fin 0] (Fin (1 / 10 ^ 9 + 1)) 0
         = Inr (Some [Fin (c + 2), Fin (c + 2)], [Fin 0, Fin 0], Fin 0, Suc (Suc 0))"
  apply (subst lse_loop.simps, simp add: lse_body_underflow[OF c])
  apply (subst lse_loop.simps, simp add: lse_body_underflow[OF c])
  apply (subst lse_loop.simps, simp)
  done

lemma exp_neg_bounds:
  assumes "0 < (c::real)" "c < 1"
  shows "1 / 3 \<le> exp (- c)" "exp (- c) < 1"
proof -
  have "exp c \<le> exp 1" using assms by simp
  also have "\<dots> \<le> 3" by (rule exp_le)
  finally have "1 / 3 \<le> 1 / exp c"
    by (intro divide_left_mono) simp_all
  then show "1 / 3 \<le> exp (- c)"
    by (simp add: exp_minus inverse_eq_divide)
  show "exp (- c) < 1" using assms by simp
qed

lemma pi_underflow:
  assumes c: "1 / 2000 < c" "c < 1 / 1000"
  shows "pi_of binary64 (Arr2 2 [[Fin 2, Fin 0], [Fin 0, Fin 2]]) 2 (1 / 1000)
           [Fin (c + 2), Fin (c + 2)] [Fin 0, Fin 0]
         = Inr (Arr2 2 [[Fin (exp (- (c * 1000))), Fin 0], [Fin 0, Fin (exp (- (c * 1000)))]])"
proof -
  have "0 < c * 1000" "c * 1000 < 1" using c by simp_all
  from exp_neg_bounds[OF this] have b: "1 / 3 \<le> exp (- (c * 1000))" "exp (- (c * 1000)) < 1" .
  have a: "\<bar>exp (- (c * 1000))\<bar> = exp (- (c * 1000))" by simp
  have "binary64 (exp (- (c * 1000))) = Fin (exp (- (c * 1000)))"
  proof (rule binary64_mid)
    show "1 / 10 ^ 6 \<le> \<bar>exp (- (c * 1000))\<bar>" unfolding a by (rule order_trans[OF _ b(1)]) simp
    show "\<bar>exp (- (c * 1000))\<bar> \<le> 10 ^ 6" unfolding a by (rule order_trans[OF less_imp_le[OF b(2)]]) simp
  qed
  with c show ?thesis
    by (simp add: pi_of_def bc22_def nrows_def bdim_def tab_def el_def np_T_def
      two_d_def rep_T_def repeat_axis1_def bidx_def map2d_def vec_2 vec_1 vec_SS exp_over_def
      fsub_def binary64_mid binary64_0 exp_underflow)
qed

lemma flog_0: "flog R (Fin 0) = NInf"
  by (simp add: flog.simps)

lemma objective_underflow:
  "objective binary64 sigma (Arr2 2 [[Fin 2, Fin 0], [Fin 0, Fin 2]])
           (Arr2 2 [[Fin x, Fin 0], [Fin 0, Fin x]]) = Inr NaN"
  by (simp add: objective_def bc22_def nrows_def bdim_def tab_def el_def bidx_def map2d_def
      vec_2 vec_1 vec_SS vec_4 np_sum_def flatten_def fsum_def fsub_def fadd_NaN fmul_NaN binary64_0 flog_0)

lemma finite_fin1: "list_all isfinite (fin1 n f)"
  by (simp add: fin1_def vec_def list_all_iff)

lemma finite_fin2: "list_all (list_all isfinite) (rows (fin2 n m P))"
  by (simp add: fin2_def tab_def vec_def list_all_iff)

text \<open>
  Without rounding, overflow or underflow the outputs of the log-sum-exp cell are finite:
  for finite \<open>Phi\<close>, \<open>sigma \<noteq> 0\<close>, strictly positive \<open>p\<close> and \<open>q\<close> and a cap above zero,
  \<open>u\<close>, \<open>v\<close>, \<open>pi\<close> and the value are reals.
\<close>

lemma lse_outputs_finite_in_exact_arithmetic:
  assumes "0 < n" "0 < m" "sigma \<noteq> 0" "pos_on n p" "pos_on m q" "0 < maxite"
  shows "\<exists>r. ipfp_lse exact (fin2 n m phi) (fin1 n p) (fin1 m q) n m sigma tol maxite = Inr r
           \<and> list_all isfinite (res_u r) \<and> list_all isfinite (res_v r)
           \<and> list_all (list_all isfinite) (rows (res_pi r)) \<and> isfinite (res_val r)"
proof -
  obtain a' b' e' ite' where
    fin: "lse_loop_r n m (kernel sigma phi) p q sigma tol maxite None (\<lambda>j. 1) (Fin (tol + 1)) 0
          = (a', b', e', ite')"
    using lse_loop_r_total by blast
  from ipfp_lse_exact[OF assms fin] show ?thesis
    by (auto simp: finite_fin1 finite_fin2)
qed

text \<open>
  C1.  In binary64 the value the log-sum-exp cell returns is NaN as soon as an entry of the
  coupling underflows to zero: \<open>val\<close> is computed from \<open>pi * np.log(pi)\<close>, and \<open>0 * log 0\<close> is
  \<open>0 * -inf\<close>.  On \<open>Phi = [[2, 0], [0, 2]]\<close>, \<open>p = q = (1/2, 1/2)\<close>, with the notebook's
  \<open>sigma = 0.001\<close>, \<open>tol = 1e-9\<close> and \<open>maxite = 1e6\<close>, every exponential inside the loop has
  an argument of at most zero, the loop converges after two iterations with finite \<open>u\<close> and
  \<open>v\<close>, the off-diagonal entries of \<open>pi\<close> are \<open>exp(-2000.69...) = 0\<close>, and the value is NaN.
\<close>

theorem lse_value_is_nan_when_the_coupling_underflows:
  "ipfp_lse binary64 (fin2 2 2 (k2 2 0)) (fin1 2 (v2 (1 / 2) (1 / 2))) (fin1 2 (v2 (1 / 2) (1 / 2)))
     2 2 (1 / 1000) (1 / 10 ^ 9) 1000000
   = Inr \<lparr>res_status = Converged, res_ite = 2,
          res_u = [Fin (ln 2 / 1000 + 2), Fin (ln 2 / 1000 + 2)], res_v = [Fin 0, Fin 0],
          res_pi = Arr2 2 [[Fin (1 / 2), Fin 0], [Fin 0, Fin (1 / 2)]],
          res_val = NaN\<rparr>"
proof -
  have e0: "fadd binary64 (Fin (1 / 10 ^ 9)) (Fin 1) = Fin (1 / 10 ^ 9 + 1)"
    by (simp add: binary64_mid)
  have rep: "replicate 2 (Fin 0) = [Fin 0, Fin 0]"
    by (simp add: numeral_2_eq_2)
  have "ipfp_lse binary64 (fin2 2 2 (k2 2 0)) (fin1 2 (v2 (1 / 2) (1 / 2)))
          (fin1 2 (v2 (1 / 2) (1 / 2))) 2 2 (1 / 1000) (1 / 10 ^ 9) 1000000
        = Inr \<lparr>res_status = status_of (Suc (Suc 0)) 1000000, res_ite = Suc (Suc 0),
          res_u = [Fin (ln 2 / 1000 + 2), Fin (ln 2 / 1000 + 2)], res_v = [Fin 0, Fin 0],
          res_pi = Arr2 2 [[Fin (exp (- (ln 2 / 1000 * 1000))), Fin 0],
                           [Fin 0, Fin (exp (- (ln 2 / 1000 * 1000)))]],
          res_val = NaN\<rparr>"
    by (simp only: ipfp_lse_def Let_def mu_half phi_2 e0 rep lse_loop_underflow[OF mu_bounds]
        bnd_Inr prod.case option.case finish_def pi_underflow[OF mu_bounds] objective_underflow)
  then show ?thesis
    by (simp add: status_of_def exp_minus inverse_eq_divide)
qed

end
